theory Spec2Isabelle
  imports Main
begin

section \<open>JavaScript strings\<close>

text \<open>
  A JavaScript string is modelled as a HOL \<open>string\<close> holding the bytes of its UTF-8 encoding:
  an ASCII character is one byte below 128, any other character is a run of bytes from 128
  up. The filters compare the text with ASCII vocabularies only, by containment and by
  equality, which read the same on the bytes.

  \<open>toLowerCase\<close> maps the letters A to Z. Of the other characters only U+0130 and U+212A
  lower-case to something with an ASCII letter in it (\<open>i\<close> followed by U+0307, and \<open>k\<close>);
  neither can complete a vocabulary term or \<open>inc.\<close>, so they are left as they are, like every
  other character outside ASCII.

  \<open>toUpperCase\<close> maps the letters a to z, and the characters whose upper-case form is made of
  ASCII letters alone: U+00DF to SS, U+0131 to I, U+017F to S, and the ligatures U+FB00 to
  U+FB06 to FF, FI, FL, FFI, FFL, ST, ST. The upper-case form of any other character outside
  ASCII keeps a byte from 128 up, so it can never be part of an identifier of the table; such
  characters are left as they are.
\<close>

definition lower_char :: "char \<Rightarrow> char" where
  "lower_char c =
     (let n = (of_char c :: nat) in if 65 \<le> n \<and> n \<le> 90 then char_of (n + 32) else c)"

definition upper_char :: "char \<Rightarrow> char" where
  "upper_char c =
     (let n = (of_char c :: nat) in if 97 \<le> n \<and> n \<le> 122 then char_of (n - 32) else c)"

definition toLowerCase :: "string \<Rightarrow> string" where
  "toLowerCase s = map lower_char s"

text \<open>\<open>s.startsWith(k)\<close>, and \<open>s.includes(k)\<close>: \<open>k\<close> occurs in \<open>s\<close> as a contiguous run.\<close>

fun starts_with :: "string \<Rightarrow> string \<Rightarrow> bool" where
  "starts_with s [] = True"
| "starts_with [] (k # ks) = False"
| "starts_with (c # cs) (k # ks) = (c = k \<and> starts_with cs ks)"

fun str_includes :: "string \<Rightarrow> string \<Rightarrow> bool" where
  "str_includes [] k = (k = [])"
| "str_includes (c # cs) k = (starts_with (c # cs) k \<or> str_includes cs k)"

text \<open>
  The characters outside ASCII with an all-ASCII upper-case form, as UTF-8 bytes: U+00DF,
  U+0131, U+017F, U+FB00 to U+FB06.
\<close>

definition upper_special :: "(string \<times> string) list" where
  "upper_special =
     [([CHR 0xC3, CHR 0x9F], ''SS''),
      ([CHR 0xC4, CHR 0xB1], ''I''),
      ([CHR 0xC5, CHR 0xBF], ''S''),
      ([CHR 0xEF, CHR 0xAC, CHR 0x80], ''FF''),
      ([CHR 0xEF, CHR 0xAC, CHR 0x81], ''FI''),
      ([CHR 0xEF, CHR 0xAC, CHR 0x82], ''FL''),
      ([CHR 0xEF, CHR 0xAC, CHR 0x83], ''FFI''),
      ([CHR 0xEF, CHR 0xAC, CHR 0x84], ''FFL''),
      ([CHR 0xEF, CHR 0xAC, CHR 0x85], ''ST''),
      ([CHR 0xEF, CHR 0xAC, CHR 0x86], ''ST'')]"

fun toUpperCase :: "string \<Rightarrow> string" where
  "toUpperCase [] = []"
| "toUpperCase (c # cs) =
     (case find (\<lambda>(u, r). starts_with (c # cs) u) upper_special of
        Some (u, r) \<Rightarrow> r @ toUpperCase (drop (length u - 1) cs)
      | None \<Rightarrow> upper_char c # toUpperCase cs)"

definition is_ascii :: "char \<Rightarrow> bool" where
  "is_ascii c = ((of_char c :: nat) < 128)"

section \<open>Parsed manifests\<close>

text \<open>
  \<open>pkgJson\<close> has type \<open>any\<close>: it is whatever \<open>JSON.parse\<close> produced. An object is the
  list of its own properties, read by key; a property that is not there reads as
  \<open>undefined\<close>. Of a number only its being zero or not is observed.
\<close>

datatype js =
    JUndefined
  | JNull
  | JBool bool
  | JNum int
  | JStr string
  | JArr "js list"
  | JObj "(string \<times> js) list"

datatype error = TypeError

definition bindE :: "error + 'a \<Rightarrow> ('a \<Rightarrow> error + 'b) \<Rightarrow> error + 'b" where
  "bindE m f = (case m of Inl e \<Rightarrow> Inl e | Inr x \<Rightarrow> f x)"

fun truthy :: "js \<Rightarrow> bool" where
  "truthy JUndefined = False"
| "truthy JNull = False"
| "truthy (JBool b) = b"
| "truthy (JNum n) = (n \<noteq> 0)"
| "truthy (JStr s) = (s \<noteq> [])"
| "truthy (JArr xs) = True"
| "truthy (JObj kvs) = True"

text \<open>\<open>a || b\<close>\<close>

definition js_or :: "js \<Rightarrow> js \<Rightarrow> js" where
  "js_or a b = (if truthy a then a else b)"

text \<open>
  \<open>x.k\<close> for the keys the classifiers read (\<open>license\<close>, \<open>licenses\<close>, \<open>name\<close>,
  \<open>version\<close>, \<open>type\<close>): reading a property of \<open>null\<close> or \<open>undefined\<close> throws, a
  primitive or an array has no such property.
\<close>

definition field :: "(string \<times> js) list \<Rightarrow> string \<Rightarrow> js" where
  "field kvs k = (case map_of kvs k of Some v \<Rightarrow> v | None \<Rightarrow> JUndefined)"

fun get_prop :: "js \<Rightarrow> string \<Rightarrow> error + js" where
  "get_prop JUndefined k = Inl TypeError"
| "get_prop JNull k = Inl TypeError"
| "get_prop (JObj kvs) k = Inr (field kvs k)"
| "get_prop v k = Inr JUndefined"

text \<open>
  \<open>x.toLowerCase()\<close> and \<open>x.toUpperCase()\<close>: only a string has the method; on any other
  value the call is a call of something that is not a function.
\<close>

fun call_toLowerCase :: "js \<Rightarrow> error + string" where
  "call_toLowerCase (JStr s) = Inr (toLowerCase s)"
| "call_toLowerCase v = Inl TypeError"

fun call_toUpperCase :: "js \<Rightarrow> error + string" where
  "call_toUpperCase (JStr s) = Inr (toUpperCase s)"
| "call_toUpperCase v = Inl TypeError"

fun typeof :: "js \<Rightarrow> string" where
  "typeof JUndefined = ''undefined''"
| "typeof JNull = ''object''"
| "typeof (JBool b) = ''boolean''"
| "typeof (JNum n) = ''number''"
| "typeof (JStr s) = ''string''"
| "typeof (JArr xs) = ''object''"
| "typeof (JObj kvs) = ''object''"

section \<open>The result contract\<close>

record LicenseMatchResult =
  name :: js
  version :: js
  license :: js
  reason :: string

type_synonym LicenseFilter = "string \<Rightarrow> js \<Rightarrow> error + LicenseMatchResult option"

text \<open>The object literal \<open>{name: pkgJson.name, version: pkgJson.version, license: l, reason: r}\<close>.\<close>

definition make_result :: "js \<Rightarrow> js \<Rightarrow> string \<Rightarrow> error + LicenseMatchResult option" where
  "make_result pkgJson l r =
     bindE (get_prop pkgJson ''name'') (\<lambda>n.
     bindE (get_prop pkgJson ''version'') (\<lambda>v.
       Inr (Some \<lparr>name = n, version = v, license = l, reason = r\<rparr>)))"

section \<open>The keyword filter (default-filter)\<close>

definition NC_KEYWORDS :: "string list" where
  "NC_KEYWORDS =
     [''non-commercial'', ''noncommercial'', ''by-nc'', ''cc-by-nc'',
      ''attribution-noncommercial'', ''nc'']"

text \<open>The \<open>for ... of\<close> loop over \<open>pkgJson.licenses\<close>.\<close>

fun licenses_loop :: "js \<Rightarrow> js list \<Rightarrow> error + LicenseMatchResult option" where
  "licenses_loop pkgJson [] = Inr None"
| "licenses_loop pkgJson (licenseObj # rest) =
     (if truthy licenseObj \<and> typeof licenseObj = ''object'' then
        bindE (get_prop licenseObj ''type'') (\<lambda>ty.
          if truthy ty then
            bindE (call_toLowerCase ty) (\<lambda>licenseType.
              if list_ex (\<lambda>k. str_includes licenseType k) NC_KEYWORDS
              then make_result pkgJson ty ''licenses array contains NC keyword''
              else licenses_loop pkgJson rest)
          else licenses_loop pkgJson rest)
      else licenses_loop pkgJson rest)"

text \<open>
  \<open>Array.isArray(pkgJson.licenses)\<close> holds of an array only; the \<open>case\<close> below is that
  test together with the loop over the entries.
\<close>

definition default_filter :: LicenseFilter where
  "default_filter pkgPath pkgJson =
     bindE (get_prop pkgJson ''license'') (\<lambda>l.
     bindE (call_toLowerCase (js_or l (JStr ''''))) (\<lambda>license.
       if list_ex (\<lambda>k. str_includes license k) NC_KEYWORDS then
         if str_includes license ''inc.'' \<and>
            (let matchedKeywords = filter (\<lambda>k. str_includes license k) NC_KEYWORDS
             in length matchedKeywords = 1 \<and> matchedKeywords ! 0 = ''nc'')
         then Inr None
         else make_result pkgJson l ''license field contains NC keyword''
       else
         bindE (get_prop pkgJson ''licenses'') (\<lambda>ls.
           case ls of
             JArr entries \<Rightarrow> licenses_loop pkgJson entries
           | _ \<Rightarrow> Inr None)))"

section \<open>The identifier filter (spdx-filter)\<close>

definition NON_COMMERCIAL_SPDX :: "string list" where
  "NON_COMMERCIAL_SPDX =
     [''CC-BY-NC-1.0'', ''CC-BY-NC-2.0'', ''CC-BY-NC-2.5'', ''CC-BY-NC-3.0'', ''CC-BY-NC-4.0'',
      ''CC-BY-NC-SA-1.0'', ''CC-BY-NC-SA-2.0'', ''CC-BY-NC-SA-2.5'', ''CC-BY-NC-SA-3.0'',
      ''CC-BY-NC-SA-4.0'']"

definition spdx_filter :: LicenseFilter where
  "spdx_filter pkgPath pkgJson =
     bindE (get_prop pkgJson ''license'') (\<lambda>l.
     bindE (call_toUpperCase (js_or l (JStr ''''))) (\<lambda>lic.
       if lic \<in> set NON_COMMERCIAL_SPDX
       then make_result pkgJson l ''SPDX identifier is known to be non-commercial''
       else Inr None))"

section \<open>The runner: the loop of \<open>scan\<close> over the filters, for one manifest\<close>

text \<open>
  \<open>for (const {name: fname, fn} of filters) { const res = fn(p, j);
     if (res) { res.reason += ` (filter: ${fname})`; results.push(res) } }\<close>
\<close>

fun scan_filters ::
  "(string \<times> LicenseFilter) list \<Rightarrow> string \<Rightarrow> js \<Rightarrow> LicenseMatchResult list
     \<Rightarrow> error + LicenseMatchResult list" where
  "scan_filters [] p j results = Inr results"
| "scan_filters ((fname, fn) # filters) p j results =
     bindE (fn p j) (\<lambda>res.
       case res of
         None \<Rightarrow> scan_filters filters p j results
       | Some r \<Rightarrow>
           scan_filters filters p j
             (results @ [r\<lparr>reason := reason r @ '' (filter: '' @ fname @ '')''\<rparr>]))"

section \<open>Objects by reference\<close>

text \<open>
  The filters and \<open>scan\<close> work on objects by reference: \<open>scan\<close> hands the parsed manifest to
  each filter, a filter may read and could write any object it can reach, and \<open>scan\<close> changes
  the object a filter returned. The arrays \<open>NC_KEYWORDS\<close> and \<open>NON_COMMERCIAL_SPDX\<close> are module
  state that a filter call could change as well. To say what a call reads and writes, the
  code is written a second time as a computation on a world: the heap of objects (a
  reference is an index, a new object goes to the end) and the contents of the two arrays.
\<close>

datatype val = VUndefined | VNull | VBool bool | VNum int | VStr string | VRef nat

datatype obj = OArr "val list" | OObj "(string \<times> val) list"

record world =
  objects :: "obj list"
  nc_keywords :: "string list"
  non_commercial_spdx :: "string list"

type_synonym 'a run = "world \<Rightarrow> (error + 'a) \<times> world"

definition returnS :: "'a \<Rightarrow> 'a run" where
  "returnS x w = (Inr x, w)"

definition throwS :: "error \<Rightarrow> 'a run" where
  "throwS e w = (Inl e, w)"

definition bindS :: "'a run \<Rightarrow> ('a \<Rightarrow> 'b run) \<Rightarrow> 'b run" where
  "bindS m f w = (case m w of (Inl e, w') \<Rightarrow> (Inl e, w') | (Inr x, w') \<Rightarrow> f x w')"

fun truthy_v :: "val \<Rightarrow> bool" where
  "truthy_v VUndefined = False"
| "truthy_v VNull = False"
| "truthy_v (VBool b) = b"
| "truthy_v (VNum n) = (n \<noteq> 0)"
| "truthy_v (VStr s) = (s \<noteq> [])"
| "truthy_v (VRef r) = True"

definition val_or :: "val \<Rightarrow> val \<Rightarrow> val" where
  "val_or a b = (if truthy_v a then a else b)"

fun typeof_v :: "val \<Rightarrow> string" where
  "typeof_v VUndefined = ''undefined''"
| "typeof_v VNull = ''object''"
| "typeof_v (VBool b) = ''boolean''"
| "typeof_v (VNum n) = ''number''"
| "typeof_v (VStr s) = ''string''"
| "typeof_v (VRef r) = ''object''"

definition field_v :: "(string \<times> val) list \<Rightarrow> string \<Rightarrow> val" where
  "field_v kvs k = (case map_of kvs k of Some v \<Rightarrow> v | None \<Rightarrow> VUndefined)"

fun set_field :: "string \<Rightarrow> val \<Rightarrow> (string \<times> val) list \<Rightarrow> (string \<times> val) list" where
  "set_field k v [] = [(k, v)]"
| "set_field k v ((k', v') # kvs) =
     (if k = k' then (k, v) # kvs else (k', v') # set_field k v kvs)"

text \<open>
  \<open>x.k\<close>, for the keys read here. A reference that names no object of the heap does not
  arise from \<open>JSON.parse\<close>; the model throws on it.
\<close>

fun read_prop :: "val \<Rightarrow> string \<Rightarrow> val run" where
  "read_prop VUndefined k = throwS TypeError"
| "read_prop VNull k = throwS TypeError"
| "read_prop (VRef r) k =
     (\<lambda>w. if r < length (objects w)
          then (case objects w ! r of
                  OObj kvs \<Rightarrow> returnS (field_v kvs k) w
                | OArr vs \<Rightarrow> returnS VUndefined w)
          else throwS TypeError w)"
| "read_prop v k = returnS VUndefined"

text \<open>
  \<open>x.k = v\<close>. Module code is strict: assigning to a property of a primitive throws. \<open>scan\<close>
  assigns to \<open>reason\<close> of what a filter returned, an object; an array is not modelled with
  named properties, and the model throws on it.
\<close>

fun write_prop :: "val \<Rightarrow> string \<Rightarrow> val \<Rightarrow> unit run" where
  "write_prop (VRef r) k v =
     (\<lambda>w. if r < length (objects w)
          then (case objects w ! r of
                  OObj kvs \<Rightarrow>
                    (Inr (), w\<lparr>objects := (objects w)[r := OObj (set_field k v kvs)]\<rparr>)
                | OArr vs \<Rightarrow> throwS TypeError w)
          else throwS TypeError w)"
| "write_prop x k v = throwS TypeError"

text \<open>An object literal.\<close>

definition new_object :: "(string \<times> val) list \<Rightarrow> val run" where
  "new_object kvs w = (Inr (VRef (length (objects w))), w\<lparr>objects := objects w @ [OObj kvs]\<rparr>)"

fun call_toLowerCase_v :: "val \<Rightarrow> string run" where
  "call_toLowerCase_v (VStr s) = returnS (toLowerCase s)"
| "call_toLowerCase_v v = throwS TypeError"

fun call_toUpperCase_v :: "val \<Rightarrow> string run" where
  "call_toUpperCase_v (VStr s) = returnS (toUpperCase s)"
| "call_toUpperCase_v v = throwS TypeError"

text \<open>\<open>Array.isArray(x)\<close>, and the elements a \<open>for ... of\<close> loop over the array \<open>x\<close> visits.\<close>

fun isArray_v :: "val \<Rightarrow> bool run" where
  "isArray_v (VRef r) =
     (\<lambda>w. if r < length (objects w)
          then (case objects w ! r of OArr vs \<Rightarrow> returnS True w | OObj kvs \<Rightarrow> returnS False w)
          else throwS TypeError w)"
| "isArray_v v = returnS False"

fun elements :: "val \<Rightarrow> val list run" where
  "elements (VRef r) =
     (\<lambda>w. if r < length (objects w)
          then (case objects w ! r of OArr vs \<Rightarrow> returnS vs w | OObj kvs \<Rightarrow> throwS TypeError w)
          else throwS TypeError w)"
| "elements v = throwS TypeError"

text \<open>Reading the module arrays.\<close>

definition read_NC_KEYWORDS :: "string list run" where
  "read_NC_KEYWORDS w = (Inr (nc_keywords w), w)"

definition read_NON_COMMERCIAL_SPDX :: "string list run" where
  "read_NON_COMMERCIAL_SPDX w = (Inr (non_commercial_spdx w), w)"

text \<open>
  \<open>{name: pkgJson.name, version: pkgJson.version, license: src.k, reason: r}\<close>, the
  properties read in this order.
\<close>

definition make_result_h :: "val \<Rightarrow> val \<Rightarrow> string \<Rightarrow> string \<Rightarrow> val run" where
  "make_result_h pkgJson src k r =
     bindS (read_prop pkgJson ''name'') (\<lambda>n.
     bindS (read_prop pkgJson ''version'') (\<lambda>v.
     bindS (read_prop src k) (\<lambda>l.
       new_object [(''name'', n), (''version'', v), (''license'', l), (''reason'', VStr r)])))"

fun licenses_loop_h :: "val \<Rightarrow> val list \<Rightarrow> val run" where
  "licenses_loop_h pkgJson [] = returnS VNull"
| "licenses_loop_h pkgJson (licenseObj # rest) =
     (if truthy_v licenseObj \<and> typeof_v licenseObj = ''object'' then
        bindS (read_prop licenseObj ''type'') (\<lambda>ty.
          if truthy_v ty then
            bindS (read_prop licenseObj ''type'') (\<lambda>ty'.
            bindS (call_toLowerCase_v ty') (\<lambda>licenseType.
            bindS read_NC_KEYWORDS (\<lambda>ks.
              if list_ex (\<lambda>k. str_includes licenseType k) ks
              then make_result_h pkgJson licenseObj ''type''
                     ''licenses array contains NC keyword''
              else licenses_loop_h pkgJson rest)))
          else licenses_loop_h pkgJson rest)
      else licenses_loop_h pkgJson rest)"

definition default_filter_h :: "string \<Rightarrow> val \<Rightarrow> val run" where
  "default_filter_h pkgPath pkgJson =
     bindS (read_prop pkgJson ''license'') (\<lambda>l.
     bindS (call_toLowerCase_v (val_or l (VStr ''''))) (\<lambda>license.
     bindS read_NC_KEYWORDS (\<lambda>ks.
       if list_ex (\<lambda>k. str_includes license k) ks then
         if str_includes license ''inc.'' \<and>
            (let matchedKeywords = filter (\<lambda>k. str_includes license k) ks
             in length matchedKeywords = 1 \<and> matchedKeywords ! 0 = ''nc'')
         then returnS VNull
         else make_result_h pkgJson pkgJson ''license'' ''license field contains NC keyword''
       else
         bindS (read_prop pkgJson ''licenses'') (\<lambda>ls.
         bindS (isArray_v ls) (\<lambda>b.
           if b then bindS (elements ls) (\<lambda>entries. licenses_loop_h pkgJson entries)
           else returnS VNull)))))"

definition spdx_filter_h :: "string \<Rightarrow> val \<Rightarrow> val run" where
  "spdx_filter_h pkgPath pkgJson =
     bindS (read_prop pkgJson ''license'') (\<lambda>l.
     bindS (call_toUpperCase_v (val_or l (VStr ''''))) (\<lambda>lic.
     bindS read_NON_COMMERCIAL_SPDX (\<lambda>ids.
       if lic \<in> set ids
       then make_result_h pkgJson pkgJson ''license''
              ''SPDX identifier is known to be non-commercial''
       else returnS VNull)))"

text \<open>
  \<open>res.reason += s\<close> is \<open>res.reason = res.reason + s\<close>. The reason of a verdict is a string;
  the conversion of any other value to a string is not modelled, and the model throws on it.
\<close>

fun plus_string :: "val \<Rightarrow> string \<Rightarrow> val run" where
  "plus_string (VStr t) s = returnS (VStr (t @ s))"
| "plus_string v s = throwS TypeError"

fun scan_filters_h ::
  "(string \<times> (string \<Rightarrow> val \<Rightarrow> val run)) list \<Rightarrow> string \<Rightarrow> val \<Rightarrow> val list
     \<Rightarrow> val list run" where
  "scan_filters_h [] p j results = returnS results"
| "scan_filters_h ((fname, fn) # filters) p j results =
     bindS (fn p j) (\<lambda>res.
       if truthy_v res then
         bindS (read_prop res ''reason'') (\<lambda>r.
         bindS (plus_string r ('' (filter: '' @ fname @ '')'')) (\<lambda>r'.
         bindS (write_prop res ''reason'' r') (\<lambda>u.
           scan_filters_h filters p j (results @ [res]))))
       else scan_filters_h filters p j results)"

text \<open>
  The manifest \<open>j\<close>, as \<open>JSON.parse\<close> returns it, laid out in a heap: the value \<open>v\<close> stands for
  the tree \<open>j\<close>.
\<close>

fun rep :: "obj list \<Rightarrow> val \<Rightarrow> js \<Rightarrow> bool" where
  "rep h v JUndefined = (v = VUndefined)"
| "rep h v JNull = (v = VNull)"
| "rep h v (JBool b) = (v = VBool b)"
| "rep h v (JNum n) = (v = VNum n)"
| "rep h v (JStr s) = (v = VStr s)"
| "rep h v (JArr js) =
     (case v of
        VRef r \<Rightarrow>
          r < length h \<and>
          (case h ! r of OArr vs \<Rightarrow> list_all2 (\<lambda>v j. rep h v j) vs js | OObj fs \<Rightarrow> False)
      | _ \<Rightarrow> False)"
| "rep h v (JObj kvs) =
     (case v of
        VRef r \<Rightarrow>
          r < length h \<and>
          (case h ! r of
             OObj fs \<Rightarrow> list_all2 (\<lambda>f kv. fst f = fst kv \<and> rep h (snd f) (snd kv)) fs kvs
           | OArr vs \<Rightarrow> False)
      | _ \<Rightarrow> False)"

text \<open>The verdict record as the object it is.\<close>

definition js_of_result :: "LicenseMatchResult \<Rightarrow> js" where
  "js_of_result r =
     JObj [(''name'', name r), (''version'', version r), (''license'', license r),
           (''reason'', JStr (reason r))]"

text \<open>
  What a computation may do to the world: nothing at all, or nothing but allocate one verdict
  object on returning it.
\<close>

definition effect_free :: "'a run \<Rightarrow> bool" where
  "effect_free m = (\<forall>w. snd (m w) = w)"

definition verdict_run :: "val run \<Rightarrow> bool" where
  "verdict_run m =
     (\<forall>w. (\<exists>e. m w = (Inl e, w)) \<or> m w = (Inr VNull, w) \<or>
          (\<exists>n v l r.
             m w = (Inr (VRef (length (objects w))),
                    w\<lparr>objects := objects w @
                       [OObj [(''name'', n), (''version'', v), (''license'', l),
                              (''reason'', VStr r)]]\<rparr>)))"

text \<open>
  A run of a filter on the world \<open>w\<close> agrees with the outcome the filter has on the manifest
  as a tree: the same error, nothing, or a new object whose name, version and license stand
  for those of the verdict and whose reason is the verdict's.
\<close>

definition refines ::
  "world \<Rightarrow> (error + val) \<times> world \<Rightarrow> error + LicenseMatchResult option \<Rightarrow> bool" where
  "refines w out res =
     (case res of
        Inl e \<Rightarrow> out = (Inl e, w)
      | Inr None \<Rightarrow> out = (Inr VNull, w)
      | Inr (Some r) \<Rightarrow>
          (\<exists>n v l.
             out = (Inr (VRef (length (objects w))),
                    w\<lparr>objects := objects w @
                       [OObj [(''name'', n), (''version'', v), (''license'', l),
                              (''reason'', VStr (reason r))]]\<rparr>) \<and>
             rep (objects w) n (name r) \<and> rep (objects w) v (version r) \<and>
             rep (objects w) l (license r)))"

section \<open>Comparison up to case, as the specification words it\<close>

text \<open>
  Two strings are equal case-insensitively when bringing both to one case makes them the same
  string. The comparison is written with the upper-case form, under which U+017F counts as a
  case variant of the letter s; on ASCII text it is the same as comparing the lower-case
  forms.
\<close>

definition equals_ignoring_case :: "string \<Rightarrow> string \<Rightarrow> bool" where
  "equals_ignoring_case a b = (toUpperCase a = toUpperCase b)"

section \<open>Entries of the licenses array that the loop passes over\<close>

text \<open>
  An entry gives neither a verdict nor an error when it is not an object (an array has no
  \<open>type\<close>), when its \<open>type\<close> is missing or falsy, or when its \<open>type\<close> is a string whose
  lowercase form contains no vocabulary term.
\<close>

definition entry_skipped :: "js \<Rightarrow> bool" where
  "entry_skipped e =
     (case e of
        JObj tkvs \<Rightarrow>
          (case field tkvs ''type'' of
             JStr t \<Rightarrow> \<not> list_ex (str_includes (toLowerCase t)) NC_KEYWORDS
           | ty \<Rightarrow> \<not> truthy ty)
      | _ \<Rightarrow> True)"

section \<open>Facts about the string primitives\<close>

lemma starts_with_iff: "starts_with s k \<longleftrightarrow> (\<exists>ss. s = k @ ss)"
  by (induction s k rule: starts_with.induct) auto

lemma str_includes_iff: "str_includes s k \<longleftrightarrow> (\<exists>ps ss. s = ps @ k @ ss)"
proof (induction s)
  case Nil
  show ?case by auto
next
  case (Cons c cs)
  show ?case
  proof
    assume "str_includes (c # cs) k"
    then consider "starts_with (c # cs) k" | "str_includes cs k" by auto
    then show "\<exists>ps ss. c # cs = ps @ k @ ss"
    proof cases
      case 1
      then obtain ss where "c # cs = k @ ss" by (auto simp: starts_with_iff)
      then have "c # cs = [] @ k @ ss" by simp
      then show ?thesis by blast
    next
      case 2
      then obtain ps ss where "cs = ps @ k @ ss" using Cons.IH by blast
      then have "c # cs = (c # ps) @ k @ ss" by simp
      then show ?thesis by blast
    qed
  next
    assume "\<exists>ps ss. c # cs = ps @ k @ ss"
    then obtain ps ss where e: "c # cs = ps @ k @ ss" by blast
    show "str_includes (c # cs) k"
    proof (cases ps)
      case Nil
      with e have "starts_with (c # cs) k" by (auto simp: starts_with_iff)
      then show ?thesis by simp
    next
      case (Cons p ps')
      with e have "cs = ps' @ k @ ss" by simp
      then have "str_includes cs k" using Cons.IH by blast
      then show ?thesis by simp
    qed
  qed
qed

lemma str_includes_trans:
  "str_includes s k \<Longrightarrow> str_includes k k' \<Longrightarrow> str_includes s k'"
proof -
  assume "str_includes s k" "str_includes k k'"
  then obtain ps ss qs ts where "s = ps @ k @ ss" "k = qs @ k' @ ts"
    by (auto simp: str_includes_iff)
  then have "s = (ps @ qs) @ k' @ (ts @ ss)" by simp
  then show ?thesis unfolding str_includes_iff by blast
qed

lemma str_includes_nonempty: "str_includes s k \<Longrightarrow> k \<noteq> [] \<Longrightarrow> s \<noteq> []"
  by (cases s) auto

lemma toLowerCase_eq_Nil [simp]: "toLowerCase s = [] \<longleftrightarrow> s = []"
  by (simp add: toLowerCase_def)

lemma char_of_lit:
  "(char_of (n::nat) = c) = (take_bit 8 n = of_char c)"
  "(c = char_of n) = (take_bit 8 n = of_char c)"
  by (metis char_of_eq_iff)+

lemmas case_eval = toLowerCase_def upper_special_def lower_char_def upper_char_def char_of_lit

lemma NC_KEYWORDS_nonempty: "k \<in> set NC_KEYWORDS \<Longrightarrow> k \<noteq> []"
  by (auto simp: NC_KEYWORDS_def)

lemma list_ex_NC_KEYWORDS_nonempty:
  "list_ex (str_includes s) NC_KEYWORDS \<Longrightarrow> s \<noteq> []"
  by (auto simp: list_ex_iff dest: str_includes_nonempty NC_KEYWORDS_nonempty)

lemma make_result_JObj:
  "make_result (JObj kvs) l r =
     Inr (Some \<lparr>name = field kvs ''name'', version = field kvs ''version'', license = l, reason = r\<rparr>)"
  by (simp add: make_result_def bindE_def)

lemma default_filter_string:
  assumes "field kvs ''license'' = JStr s" and "s \<noteq> []"
  shows "default_filter p (JObj kvs) =
    (if list_ex (str_includes (toLowerCase s)) NC_KEYWORDS then
       if str_includes (toLowerCase s) ''inc.'' \<and> filter (str_includes (toLowerCase s)) NC_KEYWORDS = [''nc'']
       then Inr None
       else Inr (Some \<lparr>name = field kvs ''name'', version = field kvs ''version'',
                       license = JStr s, reason = ''license field contains NC keyword''\<rparr>)
     else (case field kvs ''licenses'' of JArr entries \<Rightarrow> licenses_loop (JObj kvs) entries | _ \<Rightarrow> Inr None))"
proof -
  have *: "(length xs = 1 \<and> xs ! 0 = x) \<longleftrightarrow> xs = [x]" for xs :: "string list" and x
    by (cases xs) auto
  show ?thesis
    unfolding default_filter_def get_prop.simps make_result_JObj Let_def *
    using assms by (simp add: bindE_def js_or_def)
qed

section \<open>The filters on a manifest with a string license\<close>

lemma default_filter_hit:
  assumes "field kvs ''license'' = JStr s"
    and "list_ex (str_includes (toLowerCase s)) NC_KEYWORDS"
    and "\<not> (str_includes (toLowerCase s) ''inc.'' \<and> filter (str_includes (toLowerCase s)) NC_KEYWORDS = [''nc''])"
  shows "default_filter p (JObj kvs) =
       Inr (Some \<lparr>name = field kvs ''name'', version = field kvs ''version'',
                       license = JStr s, reason = ''license field contains NC keyword''\<rparr>)"
proof -
  have "toLowerCase s \<noteq> []" using assms(2) by (rule list_ex_NC_KEYWORDS_nonempty)
  then have "s \<noteq> []" by simp
  from default_filter_string[OF assms(1) this] assms(2,3) show ?thesis by auto
qed

lemma lower_mit_or: "toLowerCase ''MIT OR CC-BY-NC-4.0'' = ''mit or cc-by-nc-4.0''"
  by (simp add: case_eval)

lemma upper_mit_or: "toUpperCase ''MIT OR CC-BY-NC-4.0'' = ''MIT OR CC-BY-NC-4.0''"
  by (simp add: case_eval)

lemma spdx_filter_string:
  assumes "field kvs ''license'' = JStr s"
  shows "spdx_filter p (JObj kvs) =
    (if toUpperCase s \<in> set NON_COMMERCIAL_SPDX
     then Inr (Some \<lparr>name = field kvs ''name'', version = field kvs ''version'',
                       license = JStr s, reason = ''SPDX identifier is known to be non-commercial''\<rparr>)
     else Inr None)"
proof (cases "s = []")
  case True
  then show ?thesis
    unfolding spdx_filter_def get_prop.simps make_result_JObj
    using assms by (simp add: bindE_def js_or_def NON_COMMERCIAL_SPDX_def)
next
  case False
  then show ?thesis
    unfolding spdx_filter_def get_prop.simps make_result_JObj
    using assms by (simp add: bindE_def js_or_def)
qed

section \<open>Case mapping\<close>

lemma of_char_lt_256: "(of_char c :: nat) < 256"
proof -
  have "(of_char c :: nat) mod 256 < 256" by simp
  then show ?thesis by (simp only: of_char_mod_256)
qed

lemma of_char_lower_char:
  "(of_char (lower_char c) :: nat) =
     (if 65 \<le> (of_char c :: nat) \<and> (of_char c :: nat) \<le> 90 then of_char c + 32 else of_char c)"
  by (simp add: lower_char_def Let_def)

lemma of_char_upper_char:
  "(of_char (upper_char c) :: nat) =
     (if 97 \<le> (of_char c :: nat) \<and> (of_char c :: nat) \<le> 122 then of_char c - 32 else of_char c)"
proof -
  have "(of_char c - 32 :: nat) mod 256 = of_char c - 32"
    using of_char_lt_256[of c] by (intro mod_less) arith
  then show ?thesis by (simp add: upper_char_def Let_def)
qed

lemma upper_char_eq_iff: "upper_char c = upper_char d \<longleftrightarrow> lower_char c = lower_char d"
proof -
  have u: "upper_char c = upper_char d \<longleftrightarrow>
      (of_char (upper_char c) :: nat) = of_char (upper_char d)"
    by simp
  have l: "lower_char c = lower_char d \<longleftrightarrow>
      (of_char (lower_char c) :: nat) = of_char (lower_char d)"
    by simp
  have "\<And>a b :: nat.
     ((if 97 \<le> a \<and> a \<le> 122 then a - 32 else a) = (if 97 \<le> b \<and> b \<le> 122 then b - 32 else b))
     \<longleftrightarrow> ((if 65 \<le> a \<and> a \<le> 90 then a + 32 else a) = (if 65 \<le> b \<and> b \<le> 90 then b + 32 else b))"
    by (simp split: if_splits) arith
  then show ?thesis
    unfolding u l of_char_lower_char of_char_upper_char by blast
qed

lemma map_eq_transfer:
  assumes "\<And>x y. f x = f y \<longleftrightarrow> g x = g y"
  shows "map f a = map f b \<longleftrightarrow> map g a = map g b"
proof (induction a arbitrary: b)
  case Nil
  show ?case by simp
next
  case (Cons x a)
  show ?case
  proof (cases b)
    case Nil
    then show ?thesis by simp
  next
    case (Cons y b')
    then show ?thesis using Cons.IH[of b'] assms[of x y] by simp
  qed
qed

lemma ascii_not_lead:
  assumes "is_ascii c"
  shows "c \<noteq> CHR 0xC3" and "c \<noteq> CHR 0xC4" and "c \<noteq> CHR 0xC5" and "c \<noteq> CHR 0xEF"
proof -
  have "\<not> is_ascii (CHR 0xC3)" "\<not> is_ascii (CHR 0xC4)" "\<not> is_ascii (CHR 0xC5)"
    "\<not> is_ascii (CHR 0xEF)"
    by (simp_all add: is_ascii_def)
  with assms show "c \<noteq> CHR 0xC3" and "c \<noteq> CHR 0xC4" and "c \<noteq> CHR 0xC5"
    and "c \<noteq> CHR 0xEF"
    by blast+
qed

lemma find_special_ascii:
  assumes "is_ascii c"
  shows "find (\<lambda>(u, r). starts_with (c # cs) u) upper_special = None"
  by (simp add: upper_special_def ascii_not_lead[OF assms])

lemma toUpperCase_ascii: "list_all is_ascii s \<Longrightarrow> toUpperCase s = map upper_char s"
  by (induction s) (simp_all add: find_special_ascii)

lemma toUpperCase_eq_iff_ascii:
  assumes "list_all is_ascii a" and "list_all is_ascii b"
  shows "toUpperCase a = toUpperCase b \<longleftrightarrow> toLowerCase a = toLowerCase b"
  unfolding toUpperCase_ascii[OF assms(1)] toUpperCase_ascii[OF assms(2)] toLowerCase_def
  by (rule map_eq_transfer) (rule upper_char_eq_iff)

lemma NON_COMMERCIAL_SPDX_upper: "t \<in> set NON_COMMERCIAL_SPDX \<Longrightarrow> toUpperCase t = t"
proof -
  have "list_all (\<lambda>t. toUpperCase t = t) NON_COMMERCIAL_SPDX"
    by (simp add: NON_COMMERCIAL_SPDX_def case_eval)
  then show "t \<in> set NON_COMMERCIAL_SPDX \<Longrightarrow> toUpperCase t = t"
    by (simp add: list_all_iff)
qed

lemma NON_COMMERCIAL_SPDX_ascii: "t \<in> set NON_COMMERCIAL_SPDX \<Longrightarrow> list_all is_ascii t"
proof -
  have "list_all (list_all is_ascii) NON_COMMERCIAL_SPDX"
    by (simp add: NON_COMMERCIAL_SPDX_def is_ascii_def)
  then show "t \<in> set NON_COMMERCIAL_SPDX \<Longrightarrow> list_all is_ascii t"
    by (simp add: list_all_iff)
qed

lemma spdx_member_iff:
  "toUpperCase s \<in> set NON_COMMERCIAL_SPDX \<longleftrightarrow>
     (\<exists>t \<in> set NON_COMMERCIAL_SPDX. equals_ignoring_case s t)"
proof
  assume "toUpperCase s \<in> set NON_COMMERCIAL_SPDX"
  moreover from this have "toUpperCase (toUpperCase s) = toUpperCase s"
    by (rule NON_COMMERCIAL_SPDX_upper)
  ultimately show "\<exists>t \<in> set NON_COMMERCIAL_SPDX. equals_ignoring_case s t"
    unfolding equals_ignoring_case_def by metis
next
  assume "\<exists>t \<in> set NON_COMMERCIAL_SPDX. equals_ignoring_case s t"
  then obtain t where t: "t \<in> set NON_COMMERCIAL_SPDX" "toUpperCase s = toUpperCase t"
    unfolding equals_ignoring_case_def by blast
  then show "toUpperCase s \<in> set NON_COMMERCIAL_SPDX"
    by (simp add: NON_COMMERCIAL_SPDX_upper)
qed

lemma spdx_ascii_lower_iff:
  assumes "list_all is_ascii s"
  shows "(\<exists>t \<in> set NON_COMMERCIAL_SPDX. equals_ignoring_case s t) \<longleftrightarrow>
         (\<exists>t \<in> set NON_COMMERCIAL_SPDX. toLowerCase s = toLowerCase t)"
  unfolding equals_ignoring_case_def
  using toUpperCase_eq_iff_ascii[OF assms NON_COMMERCIAL_SPDX_ascii] by blast

lemma inc_includes_nc: "str_includes L ''inc.'' \<Longrightarrow> str_includes L ''nc''"
  by (erule str_includes_trans) simp

lemmas filter_eval =
  default_filter_def spdx_filter_def bindE_def js_or_def field_def make_result_def
  NC_KEYWORDS_def NON_COMMERCIAL_SPDX_def case_eval

section \<open>Licenses that are not strings\<close>

lemma non_string_license_default:
  assumes "field kvs ''license'' = l" and "truthy l" and "\<forall>s. l \<noteq> JStr s"
  shows "default_filter p (JObj kvs) = Inl TypeError"
  using assms by (cases l) (simp_all add: default_filter_def bindE_def js_or_def)

lemma non_string_license_spdx:
  assumes "field kvs ''license'' = l" and "truthy l" and "\<forall>s. l \<noteq> JStr s"
  shows "spdx_filter p (JObj kvs) = Inl TypeError"
  using assms by (cases l) (simp_all add: spdx_filter_def bindE_def js_or_def)

section \<open>The licenses array\<close>

lemma licenses_loop_skip:
  assumes "entry_skipped e"
  shows "licenses_loop j (e # rest) = licenses_loop j rest"
proof (cases e)
  case (JObj tkvs)
  show ?thesis
  proof (cases "field tkvs ''type''")
    case (JStr t)
    with assms JObj have "\<not> list_ex (str_includes (toLowerCase t)) NC_KEYWORDS"
      by (simp add: entry_skipped_def)
    with JObj JStr show ?thesis by (simp add: bindE_def)
  qed (use assms JObj in \<open>simp_all add: entry_skipped_def bindE_def\<close>)
qed (simp_all add: bindE_def)

lemma licenses_loop_skip_all:
  "list_all entry_skipped pre \<Longrightarrow> licenses_loop j (pre @ rest) = licenses_loop j rest"
proof (induction pre)
  case Nil
  show ?case by simp
next
  case (Cons e pre)
  then have "entry_skipped e" and "list_all entry_skipped pre" by simp_all
  then show ?case using Cons.IH licenses_loop_skip[of e j "pre @ rest"] by simp
qed

lemma licenses_loop_match:
  assumes "field tkvs ''type'' = JStr t"
    and "list_ex (str_includes (toLowerCase t)) NC_KEYWORDS"
  shows "licenses_loop (JObj kvs) (JObj tkvs # post) =
     Inr (Some \<lparr>name = field kvs ''name'', version = field kvs ''version'',
                 license = JStr t, reason = ''licenses array contains NC keyword''\<rparr>)"
proof -
  have "toLowerCase t \<noteq> []" using assms(2) by (rule list_ex_NC_KEYWORDS_nonempty)
  then have "t \<noteq> []" by simp
  then show ?thesis using assms by (simp add: bindE_def make_result_JObj)
qed

lemma default_filter_no_string_match:
  assumes "field kvs ''license'' = l"
    and "\<not> truthy l \<or> (\<exists>s. l = JStr s \<and> \<not> list_ex (str_includes (toLowerCase s)) NC_KEYWORDS)"
  shows "default_filter p (JObj kvs) =
     (case field kvs ''licenses'' of JArr entries \<Rightarrow> licenses_loop (JObj kvs) entries
      | _ \<Rightarrow> Inr None)"
proof -
  have e: "\<not> list_ex (str_includes []) NC_KEYWORDS" by (simp add: NC_KEYWORDS_def)
  from assms(2) show ?thesis
  proof
    assume "\<not> truthy l"
    then show ?thesis
      unfolding default_filter_def get_prop.simps assms(1)
      using e by (simp add: bindE_def js_or_def toLowerCase_def)
  next
    assume "\<exists>s. l = JStr s \<and> \<not> list_ex (str_includes (toLowerCase s)) NC_KEYWORDS"
    then obtain s where s: "l = JStr s" "\<not> list_ex (str_includes (toLowerCase s)) NC_KEYWORDS"
      by blast
    show ?thesis
      unfolding default_filter_def get_prop.simps assms(1)
      using e s by (simp add: bindE_def js_or_def toLowerCase_def)
  qed
qed

section \<open>Name and version\<close>

lemma licenses_loop_relabel:
  "licenses_loop (JObj kvs') es =
     map_sum id (map_option (\<lambda>r. r\<lparr>name := field kvs' ''name'', version := field kvs' ''version''\<rparr>))
       (licenses_loop (JObj kvs) es)"
proof (induction es)
  case Nil
  show ?case by simp
next
  case (Cons e es)
  show ?case
  proof (cases "truthy e \<and> typeof e = ''object''")
    case False
    then show ?thesis using Cons.IH by auto
  next
    case True
    then obtain ty where ty: "get_prop e ''type'' = Inr ty" by (cases e) auto
    show ?thesis
    proof (cases "truthy ty")
      case False
      then show ?thesis using True ty Cons.IH by (simp add: bindE_def)
    next
      case t: True
      show ?thesis
      proof (cases ty)
        case (JStr s)
        then show ?thesis using True ty t Cons.IH by (simp add: bindE_def make_result_JObj)
      qed (use True ty t in \<open>simp_all add: bindE_def\<close>)
    qed
  qed
qed

section \<open>What the filters do to the world\<close>

lemma effect_free_returnS: "effect_free (returnS x)"
  by (simp add: effect_free_def returnS_def)

lemma effect_free_throwS: "effect_free (throwS e)"
  by (simp add: effect_free_def throwS_def)

lemma effect_free_read_prop: "effect_free (read_prop v k)"
  by (cases v) (auto simp: effect_free_def returnS_def throwS_def split: obj.splits)

lemma effect_free_call_toLowerCase_v: "effect_free (call_toLowerCase_v v)"
  by (cases v) (simp_all add: effect_free_returnS effect_free_throwS)

lemma effect_free_call_toUpperCase_v: "effect_free (call_toUpperCase_v v)"
  by (cases v) (simp_all add: effect_free_returnS effect_free_throwS)

lemma effect_free_isArray_v: "effect_free (isArray_v v)"
  by (cases v) (auto simp: effect_free_def returnS_def throwS_def split: obj.splits)

lemma effect_free_elements: "effect_free (elements v)"
  by (cases v) (auto simp: effect_free_def returnS_def throwS_def split: obj.splits)

lemma effect_free_read_NC_KEYWORDS: "effect_free read_NC_KEYWORDS"
  by (simp add: effect_free_def read_NC_KEYWORDS_def)

lemma effect_free_read_NON_COMMERCIAL_SPDX: "effect_free read_NON_COMMERCIAL_SPDX"
  by (simp add: effect_free_def read_NON_COMMERCIAL_SPDX_def)

lemmas effect_free_intros =
  effect_free_returnS effect_free_throwS effect_free_read_prop effect_free_call_toLowerCase_v
  effect_free_call_toUpperCase_v effect_free_isArray_v effect_free_elements
  effect_free_read_NC_KEYWORDS effect_free_read_NON_COMMERCIAL_SPDX

lemma verdict_run_throwS: "verdict_run (throwS e)"
  by (simp add: verdict_run_def throwS_def)

lemma verdict_run_null: "verdict_run (returnS VNull)"
  by (simp add: verdict_run_def returnS_def)

lemma verdict_run_new_object:
  "verdict_run (new_object [(''name'', n), (''version'', v), (''license'', l), (''reason'', VStr r)])"
  unfolding verdict_run_def new_object_def by blast

lemma verdict_run_bindS:
  assumes "effect_free m" and "\<And>x. verdict_run (f x)"
  shows "verdict_run (bindS m f)"
  unfolding verdict_run_def
proof
  fix w
  from assms(1) have s: "snd (m w) = w" by (simp add: effect_free_def)
  show "(\<exists>e. bindS m f w = (Inl e, w)) \<or> bindS m f w = (Inr VNull, w) \<or>
        (\<exists>n v l r.
           bindS m f w = (Inr (VRef (length (objects w))),
                  w\<lparr>objects := objects w @
                     [OObj [(''name'', n), (''version'', v), (''license'', l),
                            (''reason'', VStr r)]]\<rparr>))"
  proof (cases "fst (m w)")
    case (Inl e)
    with s have "m w = (Inl e, w)" by (metis prod.collapse)
    then show ?thesis by (simp add: bindS_def)
  next
    case (Inr x)
    with s have "m w = (Inr x, w)" by (metis prod.collapse)
    then have "bindS m f w = f x w" by (simp add: bindS_def)
    with assms(2)[of x] show ?thesis by (simp add: verdict_run_def)
  qed
qed

lemma verdict_run_if:
  "verdict_run m \<Longrightarrow> verdict_run m' \<Longrightarrow> verdict_run (if b then m else m')"
  by simp

lemma verdict_run_make_result_h: "verdict_run (make_result_h pkgJson src k r)"
  unfolding make_result_h_def
  by (intro verdict_run_bindS effect_free_read_prop verdict_run_new_object)

lemma verdict_run_licenses_loop_h: "verdict_run (licenses_loop_h pkgJson es)"
proof (induction es)
  case Nil
  show ?case by (simp add: verdict_run_null)
next
  case (Cons e es)
  show ?case
    unfolding licenses_loop_h.simps
    by (intro verdict_run_if verdict_run_bindS effect_free_intros verdict_run_make_result_h
        Cons.IH)
qed

lemma verdict_run_default_filter_h: "verdict_run (default_filter_h p pkgJson)"
  unfolding default_filter_h_def
  by (intro verdict_run_if verdict_run_bindS effect_free_intros verdict_run_make_result_h
      verdict_run_licenses_loop_h verdict_run_null)

lemma verdict_run_spdx_filter_h: "verdict_run (spdx_filter_h p pkgJson)"
  unfolding spdx_filter_h_def
  by (intro verdict_run_if verdict_run_bindS effect_free_intros verdict_run_make_result_h
      verdict_run_null)

section \<open>Manifests laid out in the heap\<close>

lemma rep_mono: "rep h v j \<Longrightarrow> rep (h @ ext) v j"
proof (induction h v j rule: rep.induct)
  case (6 h v js)
  from "6.prems" obtain r vs where r: "v = VRef r" "r < length h" "h ! r = OArr vs"
      "list_all2 (\<lambda>v j. rep h v j) vs js"
    by (auto split: val.splits obj.splits)
  have "list_all2 (\<lambda>v j. rep (h @ ext) v j) vs js"
    using r(4)
  proof (rule list.rel_mono_strong)
    fix z yb
    assume "z \<in> set vs" "yb \<in> set js" "rep h z yb"
    then show "rep (h @ ext) z yb" using "6.IH"[OF r(1,3)] by blast
  qed
  with r(1,2,3) show ?case by (simp add: nth_append)
next
  case (7 h v kvs)
  from "7.prems" obtain r fs where r: "v = VRef r" "r < length h" "h ! r = OObj fs"
      "list_all2 (\<lambda>f kv. fst f = fst kv \<and> rep h (snd f) (snd kv)) fs kvs"
    by (auto split: val.splits obj.splits)
  have "list_all2 (\<lambda>f kv. fst f = fst kv \<and> rep (h @ ext) (snd f) (snd kv)) fs kvs"
    using r(4)
  proof (rule list.rel_mono_strong)
    fix z yb
    assume "z \<in> set fs" "yb \<in> set kvs" "fst z = fst yb \<and> rep h (snd z) (snd yb)"
    then show "fst z = fst yb \<and> rep (h @ ext) (snd z) (snd yb)"
      using "7.IH"[OF r(1,3)] by blast
  qed
  with r(1,2,3) show ?case by (simp add: nth_append)
qed simp_all

lemma rep_field:
  "list_all2 (\<lambda>f kv. fst f = fst kv \<and> rep h (snd f) (snd kv)) fs kvs \<Longrightarrow>
   rep h (field_v fs k) (field kvs k)"
proof (induction fs kvs rule: list_all2_induct)
  case Nil
  show ?case by (simp add: field_v_def field_def)
next
  case (Cons f fs kv kvs)
  obtain a v where f: "f = (a, v)" by (cases f)
  obtain b j where kv: "kv = (b, j)" by (cases kv)
  from Cons f kv show ?case by (auto simp: field_v_def field_def)
qed

lemma rep_truthy: "rep h v j \<Longrightarrow> truthy_v v = truthy j"
  by (cases j) (auto split: val.splits)

lemma rep_typeof: "rep h v j \<Longrightarrow> typeof_v v = typeof j"
  by (cases j) (auto split: val.splits)

lemma rep_or: "rep h a ja \<Longrightarrow> rep h b jb \<Longrightarrow> rep h (val_or a b) (js_or ja jb)"
  by (simp add: val_or_def js_or_def rep_truthy)

text \<open>Reading a property through the heap reads the property of the tree.\<close>

lemma read_prop_rep:
  assumes "rep (objects w) v j"
  shows "(\<exists>e. get_prop j k = Inl e \<and> read_prop v k w = (Inl e, w)) \<or>
         (\<exists>j' v'. get_prop j k = Inr j' \<and> read_prop v k w = (Inr v', w) \<and> rep (objects w) v' j')"
proof (cases j)
  case (JObj kvs)
  with assms obtain r fs where r: "v = VRef r" "r < length (objects w)" "objects w ! r = OObj fs"
      "list_all2 (\<lambda>f kv. fst f = fst kv \<and> rep (objects w) (snd f) (snd kv)) fs kvs"
    by (auto split: val.splits obj.splits)
  from r(4) have "rep (objects w) (field_v fs k) (field kvs k)" by (rule rep_field)
  with JObj r(1,2,3) show ?thesis by (simp add: returnS_def)
next
  case (JArr js)
  with assms obtain r vs where r: "v = VRef r" "r < length (objects w)" "objects w ! r = OArr vs"
    by (auto split: val.splits obj.splits)
  with JArr show ?thesis by (simp add: returnS_def)
qed (use assms in \<open>simp_all add: returnS_def throwS_def\<close>)

lemma call_toLowerCase_rep:
  assumes "rep h v j"
  shows "call_toLowerCase_v v w =
     (case call_toLowerCase j of Inl e \<Rightarrow> (Inl e, w) | Inr s \<Rightarrow> (Inr s, w))"
  using assms by (cases j) (auto simp: returnS_def throwS_def split: val.splits)

lemma call_toUpperCase_rep:
  assumes "rep h v j"
  shows "call_toUpperCase_v v w =
     (case call_toUpperCase j of Inl e \<Rightarrow> (Inl e, w) | Inr s \<Rightarrow> (Inr s, w))"
  using assms by (cases j) (auto simp: returnS_def throwS_def split: val.splits)

lemma isArray_rep:
  assumes "rep (objects w) v j"
  shows "isArray_v v w = (Inr (case j of JArr js \<Rightarrow> True | _ \<Rightarrow> False), w)"
  using assms by (cases j) (auto simp: returnS_def split: val.splits obj.splits)

lemma elements_rep:
  assumes "rep (objects w) v (JArr js)"
  shows "\<exists>vs. elements v w = (Inr vs, w) \<and> list_all2 (\<lambda>v j. rep (objects w) v j) vs js"
  using assms by (auto simp: returnS_def split: val.splits obj.splits)

lemma bindS_Inr: "m w = (Inr x, w') \<Longrightarrow> bindS m f w = f x w'"
  by (simp add: bindS_def)

lemma bindS_Inl: "m w = (Inl e, w') \<Longrightarrow> bindS m f w = (Inl e, w')"
  by (simp add: bindS_def)

section \<open>The filters on the heap agree with the filters on the tree\<close>

lemma get_prop_Inr_any: "get_prop j k = Inr x \<Longrightarrow> \<exists>y. get_prop j k' = Inr y"
  by (cases j) simp_all

lemma make_result_refines:
  assumes "rep (objects w) pkg j" and "rep (objects w) src jsrc" and "get_prop jsrc k = Inr jl"
  shows "refines w (make_result_h pkg src k r w) (make_result j jl r)"
proof -
  from read_prop_rep[OF assms(1), of "''name''"] show ?thesis
  proof (elim disjE exE conjE)
    fix e
    assume "get_prop j ''name'' = Inl e" "read_prop pkg ''name'' w = (Inl e, w)"
    then show ?thesis
      by (simp add: refines_def make_result_h_def make_result_def bindS_def bindE_def)
  next
    fix jn vn
    assume n: "get_prop j ''name'' = Inr jn" "read_prop pkg ''name'' w = (Inr vn, w)"
      "rep (objects w) vn jn"
    from get_prop_Inr_any[OF n(1)] obtain jv where jv: "get_prop j ''version'' = Inr jv"
      by blast
    with read_prop_rep[OF assms(1), of "''version''"] obtain vv where
      v: "read_prop pkg ''version'' w = (Inr vv, w)" "rep (objects w) vv jv"
      by auto
    from read_prop_rep[OF assms(2), of k] assms(3) obtain vl where
      l: "read_prop src k w = (Inr vl, w)" "rep (objects w) vl jl"
      by auto
    let ?ob = "OObj [(''name'', vn), (''version'', vv), (''license'', vl), (''reason'', VStr r)]"
    have run: "make_result_h pkg src k r w =
        (Inr (VRef (length (objects w))), w\<lparr>objects := objects w @ [?ob]\<rparr>)"
      by (simp add: make_result_h_def bindS_def n(2) v(1) l(1) new_object_def)
    have pure: "make_result j jl r =
        Inr (Some \<lparr>name = jn, version = jv, license = jl, reason = r\<rparr>)"
      by (simp add: make_result_def bindE_def n(1) jv)
    from n(3) v(2) l(2) show ?thesis unfolding refines_def run pure by simp blast
  qed
qed

text \<open>The new object stands for the verdict, in the world after the call and in any later one.\<close>

lemma rep_result:
  assumes "rep h n (name r)" and "rep h v (version r)" and "rep h l (license r)"
  shows "rep (h @ OObj [(''name'', n), (''version'', v), (''license'', l),
                        (''reason'', VStr (reason r))] # ext)
           (VRef (length h)) (js_of_result r)"
  using rep_mono[OF assms(1)] rep_mono[OF assms(2)] rep_mono[OF assms(3)]
  by (simp add: js_of_result_def)

lemma licenses_loop_refines:
  assumes "rep (objects w) pkg j" and "nc_keywords w = NC_KEYWORDS"
    and "list_all2 (\<lambda>v j. rep (objects w) v j) vs js"
  shows "refines w (licenses_loop_h pkg vs w) (licenses_loop j js)"
  using assms(3)
proof (induction vs js rule: list_all2_induct)
  case Nil
  show ?case by (simp add: refines_def returnS_def)
next
  case (Cons e vs je js)
  note t = rep_truthy[OF Cons.hyps(1)] rep_typeof[OF Cons.hyps(1)]
  show ?case
  proof (cases "truthy je \<and> typeof je = ''object''")
    case False
    with t Cons.IH show ?thesis by auto
  next
    case True
    then obtain ty where ty: "get_prop je ''type'' = Inr ty" by (cases je) auto
    with read_prop_rep[OF Cons.hyps(1), of "''type''"] obtain vty where
      vty: "read_prop e ''type'' w = (Inr vty, w)" "rep (objects w) vty ty"
      by auto
    show ?thesis
    proof (cases "truthy ty")
      case False
      with True t ty vty rep_truthy[OF vty(2)] Cons.IH show ?thesis
        by (simp add: bindS_def bindE_def)
    next
      case tr: True
      show ?thesis
      proof (cases "call_toLowerCase ty")
        case (Inl e')
        with True t ty vty tr rep_truthy[OF vty(2)] call_toLowerCase_rep[OF vty(2), of w]
        show ?thesis
          by (simp add: bindS_def bindE_def refines_def)
      next
        case (Inr licenseType)
        show ?thesis
        proof (cases "list_ex (str_includes licenseType) NC_KEYWORDS")
          case m: True
          have "licenses_loop_h pkg (e # vs) w =
              make_result_h pkg e ''type'' ''licenses array contains NC keyword'' w"
            using True t vty tr rep_truthy[OF vty(2)] call_toLowerCase_rep[OF vty(2), of w]
              Inr m assms(2)
            by (simp add: bindS_def read_NC_KEYWORDS_def)
          moreover have "licenses_loop j (je # js) =
              make_result j ty ''licenses array contains NC keyword''"
            using True ty tr Inr m by (simp add: bindE_def)
          ultimately show ?thesis
            using make_result_refines[OF assms(1) Cons.hyps(1) ty] by simp
        next
          case m: False
          have "licenses_loop_h pkg (e # vs) w = licenses_loop_h pkg vs w"
            using True t vty tr rep_truthy[OF vty(2)] call_toLowerCase_rep[OF vty(2), of w]
              Inr m assms(2)
            by (simp add: bindS_def read_NC_KEYWORDS_def)
          moreover have "licenses_loop j (je # js) = licenses_loop j js"
            using True ty tr Inr m by (simp add: bindE_def)
          ultimately show ?thesis using Cons.IH by simp
        qed
      qed
    qed
  qed
qed

lemma default_filter_refines:
  assumes "rep (objects w) pkg j" and "nc_keywords w = NC_KEYWORDS"
  shows "refines w (default_filter_h p pkg w) (default_filter p j)"
proof -
  from read_prop_rep[OF assms(1), of "''license''"] show ?thesis
  proof (elim disjE exE conjE)
    fix e
    assume "get_prop j ''license'' = Inl e" "read_prop pkg ''license'' w = (Inl e, w)"
    then show ?thesis
      by (simp add: refines_def default_filter_h_def default_filter_def bindS_def bindE_def)
  next
    fix jl vl
    assume l: "get_prop j ''license'' = Inr jl" "read_prop pkg ''license'' w = (Inr vl, w)"
      "rep (objects w) vl jl"
    have o: "rep (objects w) (val_or vl (VStr '''')) (js_or jl (JStr ''''))"
      using l(3) by (rule rep_or) simp
    show ?thesis
    proof (cases "call_toLowerCase (js_or jl (JStr ''''))")
      case (Inl e)
      with l call_toLowerCase_rep[OF o, of w] show ?thesis
        by (simp add: refines_def default_filter_h_def default_filter_def bindS_def bindE_def)
    next
      case (Inr license)
      note low = call_toLowerCase_rep[OF o, of w, unfolded Inr sum.case]
      show ?thesis
      proof (cases "list_ex (str_includes license) NC_KEYWORDS")
        case hit: True
        show ?thesis
        proof (cases "str_includes license ''inc.'' \<and>
            (let matchedKeywords = filter (str_includes license) NC_KEYWORDS
             in length matchedKeywords = 1 \<and> matchedKeywords ! 0 = ''nc'')")
          case True
          have "default_filter_h p pkg w = (Inr VNull, w)"
            using l(2) low hit True assms(2)
            by (simp add: default_filter_h_def bindS_def read_NC_KEYWORDS_def returnS_def Let_def)
          moreover have "default_filter p j = Inr None"
            using l(1) Inr hit True by (simp add: default_filter_def bindE_def Let_def)
          ultimately show ?thesis by (simp add: refines_def)
        next
          case False
          have "default_filter_h p pkg w =
              make_result_h pkg pkg ''license'' ''license field contains NC keyword'' w"
            using l(2) low hit False assms(2)
            by (auto simp: default_filter_h_def bindS_def read_NC_KEYWORDS_def Let_def)
          moreover have "default_filter p j =
              make_result j jl ''license field contains NC keyword''"
            using l(1) Inr hit False by (auto simp: default_filter_def bindE_def Let_def)
          ultimately show ?thesis
            using make_result_refines[OF assms(1) assms(1) l(1)] by simp
        qed
      next
        case miss: False
        from get_prop_Inr_any[OF l(1)] obtain jls where jls: "get_prop j ''licenses'' = Inr jls"
          by blast
        with read_prop_rep[OF assms(1), of "''licenses''"] obtain vls where
          vls: "read_prop pkg ''licenses'' w = (Inr vls, w)" "rep (objects w) vls jls"
          by auto
        note arr = isArray_rep[OF vls(2)]
        show ?thesis
        proof (cases jls)
          case (JArr js)
          from elements_rep[OF vls(2)[unfolded JArr]] obtain vs where
            vs: "elements vls w = (Inr vs, w)" "list_all2 (\<lambda>v j. rep (objects w) v j) vs js"
            by blast
          have "default_filter_h p pkg w = licenses_loop_h pkg vs w"
            using l(2) low miss assms(2) vls(1) arr JArr vs(1)
            by (simp add: default_filter_h_def bindS_def read_NC_KEYWORDS_def)
          moreover have "default_filter p j = licenses_loop j js"
            using l(1) Inr miss jls JArr by (simp add: default_filter_def bindE_def)
          ultimately show ?thesis
            using licenses_loop_refines[OF assms vs(2)] by simp
        qed (use l(1,2) low miss assms(2) vls(1) arr Inr jls in
              \<open>simp_all add: default_filter_h_def default_filter_def bindS_def bindE_def
                 read_NC_KEYWORDS_def returnS_def refines_def\<close>)
      qed
    qed
  qed
qed

lemma spdx_filter_refines:
  assumes "rep (objects w) pkg j" and "non_commercial_spdx w = NON_COMMERCIAL_SPDX"
  shows "refines w (spdx_filter_h p pkg w) (spdx_filter p j)"
proof -
  from read_prop_rep[OF assms(1), of "''license''"] show ?thesis
  proof (elim disjE exE conjE)
    fix e
    assume "get_prop j ''license'' = Inl e" "read_prop pkg ''license'' w = (Inl e, w)"
    then show ?thesis
      by (simp add: refines_def spdx_filter_h_def spdx_filter_def bindS_def bindE_def)
  next
    fix jl vl
    assume l: "get_prop j ''license'' = Inr jl" "read_prop pkg ''license'' w = (Inr vl, w)"
      "rep (objects w) vl jl"
    have o: "rep (objects w) (val_or vl (VStr '''')) (js_or jl (JStr ''''))"
      using l(3) by (rule rep_or) simp
    show ?thesis
    proof (cases "call_toUpperCase (js_or jl (JStr ''''))")
      case (Inl e)
      with l call_toUpperCase_rep[OF o, of w] show ?thesis
        by (simp add: refines_def spdx_filter_h_def spdx_filter_def bindS_def bindE_def)
    next
      case (Inr lic)
      note up = call_toUpperCase_rep[OF o, of w, unfolded Inr sum.case]
      show ?thesis
      proof (cases "lic \<in> set NON_COMMERCIAL_SPDX")
        case True
        have "spdx_filter_h p pkg w =
            make_result_h pkg pkg ''license''
              ''SPDX identifier is known to be non-commercial'' w"
          using l(2) up True assms(2)
          by (simp add: spdx_filter_h_def bindS_def read_NON_COMMERCIAL_SPDX_def)
        moreover have "spdx_filter p j =
            make_result j jl ''SPDX identifier is known to be non-commercial''"
          using l(1) Inr True by (simp add: spdx_filter_def bindE_def)
        ultimately show ?thesis
          using make_result_refines[OF assms(1) assms(1) l(1)] by simp
      next
        case False
        have "spdx_filter_h p pkg w = (Inr VNull, w)"
          using l(2) up False assms(2)
          by (simp add: spdx_filter_h_def bindS_def read_NON_COMMERCIAL_SPDX_def returnS_def)
        moreover have "spdx_filter p j = Inr None"
          using l(1) Inr False by (simp add: spdx_filter_def bindE_def)
        ultimately show ?thesis by (simp add: refines_def)
      qed
    qed
  qed
qed

section \<open>The runner on the heap\<close>

lemma scan_step_throw:
  "fn p j w = (Inl e, w') \<Longrightarrow>
   scan_filters_h ((fname, fn) # filters) p j results w = (Inl e, w')"
  by (simp add: bindS_def)

lemma scan_step_null:
  "fn p j w = (Inr VNull, w') \<Longrightarrow>
   scan_filters_h ((fname, fn) # filters) p j results w = scan_filters_h filters p j results w'"
  by (simp add: bindS_def)

lemma scan_step_verdict:
  assumes "fn p j w = (Inr (VRef (length (objects w))),
      w\<lparr>objects := objects w @
        [OObj [(''name'', n), (''version'', v), (''license'', l), (''reason'', VStr r)]]\<rparr>)"
  shows "scan_filters_h ((fname, fn) # filters) p j results w =
     scan_filters_h filters p j (results @ [VRef (length (objects w))])
       (w\<lparr>objects := objects w @
          [OObj [(''name'', n), (''version'', v), (''license'', l),
                 (''reason'', VStr (r @ '' (filter: '' @ fname @ '')''))]]\<rparr>)"
  using assms by (simp add: bindS_def returnS_def field_v_def)

lemma scan_filters_h_frame:
  assumes "\<forall>(fname, fn) \<in> set filters. verdict_run (fn p j)"
    and "scan_filters_h filters p j results w = (out, w')"
  shows "take (length (objects w)) (objects w') = objects w \<and>
         nc_keywords w' = nc_keywords w \<and> non_commercial_spdx w' = non_commercial_spdx w"
  using assms
proof (induction filters arbitrary: results w)
  case Nil
  then show ?case by (simp add: returnS_def)
next
  case (Cons f filters)
  obtain fname fn where f: "f = (fname, fn)" by (cases f)
  from Cons.prems(1) f have vr: "verdict_run (fn p j)"
    and rest: "\<forall>(fname, fn) \<in> set filters. verdict_run (fn p j)"
    by simp_all
  from vr consider
      (throw) e where "fn p j w = (Inl e, w)"
    | (null) "fn p j w = (Inr VNull, w)"
    | (verdict) n v l r where "fn p j w = (Inr (VRef (length (objects w))),
        w\<lparr>objects := objects w @
          [OObj [(''name'', n), (''version'', v), (''license'', l), (''reason'', VStr r)]]\<rparr>)"
    unfolding verdict_run_def by blast
  then show ?case
  proof cases
    case throw
    from scan_step_throw[of fn p j w e w fname filters results, OF throw] Cons.prems(2) f
    show ?thesis by simp
  next
    case null
    from scan_step_null[of fn p j w w fname filters results, OF null] Cons.prems(2) f
    have "scan_filters_h filters p j results w = (out, w')" by simp
    from Cons.IH[OF rest this] show ?thesis .
  next
    case verdict
    let ?w2 = "w\<lparr>objects := objects w @
          [OObj [(''name'', n), (''version'', v), (''license'', l),
                 (''reason'', VStr (r @ '' (filter: '' @ fname @ '')''))]]\<rparr>"
    from scan_step_verdict[of fn p j w n v l r fname filters results, OF verdict]
      Cons.prems(2) f
    have "scan_filters_h filters p j (results @ [VRef (length (objects w))]) ?w2 = (out, w')"
      by simp
    from Cons.IH[OF rest this]
    have t: "take (length (objects ?w2)) (objects w') = objects ?w2"
      and k: "nc_keywords w' = nc_keywords w" "non_commercial_spdx w' = non_commercial_spdx w"
      by simp_all
    from t have "take (length (objects w)) (take (length (objects ?w2)) (objects w')) =
        objects w"
      by simp
    then have "take (length (objects w)) (objects w') = objects w" by (simp add: min_def)
    with k show ?thesis by simp
  qed
qed

lemma builtin_verdict_run:
  "fn = default_filter_h \<or> fn = spdx_filter_h \<Longrightarrow> verdict_run (fn p j)"
  using verdict_run_default_filter_h verdict_run_spdx_filter_h by blast

lemma verdict_run_frame:
  assumes "verdict_run m"
  shows "take (length (objects w)) (objects (snd (m w))) = objects w \<and>
         nc_keywords (snd (m w)) = nc_keywords w \<and>
         non_commercial_spdx (snd (m w)) = non_commercial_spdx w"
proof -
  from assms consider
      (throw) e where "m w = (Inl e, w)"
    | (null) "m w = (Inr VNull, w)"
    | (verdict) n v l r where "m w = (Inr (VRef (length (objects w))),
        w\<lparr>objects := objects w @
          [OObj [(''name'', n), (''version'', v), (''license'', l), (''reason'', VStr r)]]\<rparr>)"
    unfolding verdict_run_def by blast
  then show ?thesis by cases simp_all
qed

lemma default_filter_path: "default_filter p j = default_filter p' j"
  by (simp add: default_filter_def)

lemma spdx_filter_path: "spdx_filter p j = spdx_filter p' j"
  by (simp add: spdx_filter_def)

text \<open>The runner on the heap agrees with the runner on the tree.\<close>

lemma take_prefixD: "take (length xs) ys = xs \<Longrightarrow> ys = xs @ drop (length xs) ys"
  by (metis append_take_drop_id)

lemma scan_filters_h_refines:
  assumes "rep (objects w) pkg j"
    and "nc_keywords w = NC_KEYWORDS" and "non_commercial_spdx w = NON_COMMERCIAL_SPDX"
    and "list_all2 (\<lambda>hf f. fst hf = fst f \<and>
            ((snd hf = default_filter_h \<and> snd f = default_filter) \<or>
             (snd hf = spdx_filter_h \<and> snd f = spdx_filter))) hfs fs"
  shows "case scan_filters fs p j acc of
           Inl e \<Rightarrow> fst (scan_filters_h hfs p pkg results w) = Inl e
         | Inr out \<Rightarrow>
             (\<exists>refs vs. out = acc @ vs \<and>
                fst (scan_filters_h hfs p pkg results w) = Inr (results @ refs) \<and>
                list_all2 (\<lambda>ref r. rep (objects (snd (scan_filters_h hfs p pkg results w))) ref
                                    (js_of_result r)) refs vs)"
  using assms(4) assms(1,2,3)
proof (induction hfs fs arbitrary: w results acc rule: list_all2_induct)
  case Nil
  show ?case by (simp add: returnS_def)
next
  case (Cons hf hfs f fs)
  obtain fname fh where hf: "hf = (fname, fh)" by (cases hf)
  obtain fname' fn where f': "f = (fname', fn)" by (cases f)
  from Cons.hyps(1) hf f' have f: "f = (fname, fn)"
    and pair: "(fh = default_filter_h \<and> fn = default_filter) \<or>
               (fh = spdx_filter_h \<and> fn = spdx_filter)"
    by simp_all
  from pair have ref: "refines w (fh p pkg w) (fn p j)"
    using default_filter_refines[OF Cons.prems(1,2)] spdx_filter_refines[OF Cons.prems(1,3)]
    by blast
  have rest: "\<forall>(fname, fn) \<in> set hfs. verdict_run (fn p pkg)"
  proof -
    have "\<forall>hf \<in> set hfs. snd hf = default_filter_h \<or> snd hf = spdx_filter_h"
      using Cons.hyps(2) by (induction hfs fs rule: list_all2_induct) auto
    then show ?thesis using builtin_verdict_run by fastforce
  qed
  show ?case
  proof (cases "fn p j")
    case (Inl e)
    with ref have "fh p pkg w = (Inl e, w)" by (simp add: refines_def)
    from scan_step_throw[of fh p pkg w e w fname hfs results, OF this] Inl hf f
    show ?thesis by (simp add: bindE_def)
  next
    case (Inr res)
    show ?thesis
    proof (cases res)
      case None
      with ref Inr have "fh p pkg w = (Inr VNull, w)" by (simp add: refines_def)
      from scan_step_null[of fh p pkg w w fname hfs results, OF this]
      have h: "scan_filters_h (hf # hfs) p pkg results w = scan_filters_h hfs p pkg results w"
        using hf by simp
      have q: "scan_filters (f # fs) p j acc = scan_filters fs p j acc"
        using f Inr None by (simp add: bindE_def)
      show ?thesis unfolding h q by (rule Cons.IH[OF Cons.prems])
    next
      case (Some r)
      let ?s = "'' (filter: '' @ fname @ '')''"
      let ?r' = "r\<lparr>reason := reason r @ ?s\<rparr>"
      from ref Inr Some obtain n v l where
        run: "fh p pkg w = (Inr (VRef (length (objects w))),
            w\<lparr>objects := objects w @
              [OObj [(''name'', n), (''version'', v), (''license'', l),
                     (''reason'', VStr (reason r))]]\<rparr>)"
        and fields: "rep (objects w) n (name r)" "rep (objects w) v (version r)"
          "rep (objects w) l (license r)"
        by (auto simp: refines_def)
      let ?ob' = "OObj [(''name'', n), (''version'', v), (''license'', l),
                        (''reason'', VStr (reason r @ ?s))]"
      let ?w2 = "w\<lparr>objects := objects w @ [?ob']\<rparr>"
      let ?res2 = "results @ [VRef (length (objects w))]"
      from scan_step_verdict[of fh p pkg w n v l "reason r" fname hfs results, OF run]
      have h: "scan_filters_h (hf # hfs) p pkg results w = scan_filters_h hfs p pkg ?res2 ?w2"
        using hf by simp
      have q: "scan_filters (f # fs) p j acc = scan_filters fs p j (acc @ [?r'])"
        using f Inr Some by (simp add: bindE_def)
      have m2: "rep (objects ?w2) pkg j"
        using rep_mono[OF Cons.prems(1), of "[?ob']"] by simp
      have k2: "nc_keywords ?w2 = NC_KEYWORDS" "non_commercial_spdx ?w2 = NON_COMMERCIAL_SPDX"
        using Cons.prems(2,3) by simp_all
      note ih = Cons.IH[OF m2 k2, where acc = "acc @ [?r']" and results = ?res2]
      show ?thesis
      proof (cases "scan_filters fs p j (acc @ [?r'])")
        case (Inl e)
        with ih show ?thesis unfolding h q by simp
      next
        case (Inr out)
        let ?fin = "snd (scan_filters_h hfs p pkg ?res2 ?w2)"
        from ih Inr obtain refs vs where
          o: "out = (acc @ [?r']) @ vs"
          and rs: "fst (scan_filters_h hfs p pkg ?res2 ?w2) = Inr (?res2 @ refs)"
          and al: "list_all2 (\<lambda>ref r. rep (objects ?fin) ref (js_of_result r)) refs vs"
          by auto
        have "take (length (objects ?w2)) (objects ?fin) = objects ?w2"
          using scan_filters_h_frame[OF rest, of ?res2 ?w2
              "fst (scan_filters_h hfs p pkg ?res2 ?w2)" ?fin]
          by simp
        from take_prefixD[OF this] obtain ext where
          fin: "objects ?fin = objects w @ ?ob' # ext"
          by auto
        have hd: "rep (objects ?fin) (VRef (length (objects w))) (js_of_result ?r')"
          unfolding fin using rep_result[of "objects w" n ?r' v l ext] fields by simp
        have "out = acc @ (?r' # vs)" using o by simp
        moreover have "fst (scan_filters_h hfs p pkg ?res2 ?w2) =
            Inr (results @ (VRef (length (objects w)) # refs))"
          using rs by simp
        moreover have "list_all2 (\<lambda>ref r. rep (objects ?fin) ref (js_of_result r))
            (VRef (length (objects w)) # refs) (?r' # vs)"
          using hd al by simp
        ultimately show ?thesis unfolding h q Inr by (simp del: append_assoc)
      qed
    qed
  qed
qed

section \<open>Claims\<close>

text \<open>
  C7. For a manifest whose license is the string \<open>MIT OR CC-BY-NC-4.0\<close> the keyword filter
  returns a verdict (the lowercased text contains \<open>cc-by-nc\<close>), the identifier filter returns
  nothing, and the runner with both filters, in either order, returns exactly one verdict,
  whose reason ends in the keyword filter's name.
\<close>

theorem mit_or_cc_by_nc_one_keyword_verdict:
  assumes "field kvs ''license'' = JStr ''MIT OR CC-BY-NC-4.0''"
  shows "default_filter p (JObj kvs) =
           Inr (Some \<lparr>name = field kvs ''name'', version = field kvs ''version'',
                       license = JStr ''MIT OR CC-BY-NC-4.0'',
                       reason = ''license field contains NC keyword''\<rparr>)
       \<and> spdx_filter p (JObj kvs) = Inr None
       \<and> scan_filters [(''default-filter'', default_filter), (''spdx-filter'', spdx_filter)]
            p (JObj kvs) [] =
           Inr [\<lparr>name = field kvs ''name'', version = field kvs ''version'',
                 license = JStr ''MIT OR CC-BY-NC-4.0'',
                 reason = ''license field contains NC keyword (filter: default-filter)''\<rparr>]
       \<and> scan_filters [(''spdx-filter'', spdx_filter), (''default-filter'', default_filter)]
            p (JObj kvs) [] =
           Inr [\<lparr>name = field kvs ''name'', version = field kvs ''version'',
                 license = JStr ''MIT OR CC-BY-NC-4.0'',
                 reason = ''license field contains NC keyword (filter: default-filter)''\<rparr>]"
proof -
  have k: "default_filter p (JObj kvs) =
           Inr (Some \<lparr>name = field kvs ''name'', version = field kvs ''version'',
                       license = JStr ''MIT OR CC-BY-NC-4.0'',
                       reason = ''license field contains NC keyword''\<rparr>)"
    by (rule default_filter_hit[OF assms]) (simp_all add: lower_mit_or NC_KEYWORDS_def)
  have i: "spdx_filter p (JObj kvs) = Inr None"
    unfolding spdx_filter_string[OF assms] upper_mit_or by (simp add: NON_COMMERCIAL_SPDX_def)
  show ?thesis by (simp add: k i bindE_def)
qed

theorem mit_or_cc_by_nc_witness:
  "field [(''name'', JStr ''pkg''), (''version'', JStr ''1.0.0''),
          (''license'', JStr ''MIT OR CC-BY-NC-4.0'')] ''license'' = JStr ''MIT OR CC-BY-NC-4.0''
   \<and> scan_filters [(''default-filter'', default_filter), (''spdx-filter'', spdx_filter)]
        ''node_modules/pkg''
        (JObj [(''name'', JStr ''pkg''), (''version'', JStr ''1.0.0''),
               (''license'', JStr ''MIT OR CC-BY-NC-4.0'')]) [] =
       Inr [\<lparr>name = JStr ''pkg'', version = JStr ''1.0.0'',
             license = JStr ''MIT OR CC-BY-NC-4.0'',
             reason = ''license field contains NC keyword (filter: default-filter)''\<rparr>]"
proof -
  have h: "field [(''name'', JStr ''pkg''), (''version'', JStr ''1.0.0''),
          (''license'', JStr ''MIT OR CC-BY-NC-4.0'')] ''license'' = JStr ''MIT OR CC-BY-NC-4.0''"
    by (simp add: field_def)
  have n: "field [(''name'', JStr ''pkg''), (''version'', JStr ''1.0.0''),
          (''license'', JStr ''MIT OR CC-BY-NC-4.0'')] ''name'' = JStr ''pkg''"
    by (simp add: field_def)
  have v: "field [(''name'', JStr ''pkg''), (''version'', JStr ''1.0.0''),
          (''license'', JStr ''MIT OR CC-BY-NC-4.0'')] ''version'' = JStr ''1.0.0''"
    by (simp add: field_def)
  note r = mit_or_cc_by_nc_one_keyword_verdict[OF h, of "''node_modules/pkg''", unfolded n v]
  show ?thesis using h r by blast
qed

text \<open>
  C10. Vocabulary matching is raw substring containment: a string license whose lowercased
  text contains the two characters \<open>nc\<close> anywhere, and does not contain \<open>inc.\<close>, is flagged by
  the keyword filter with reason \<open>license field contains NC keyword\<close>; so is
  \<open>Sync Framework License\<close>.
\<close>

theorem bare_nc_substring_flagged:
  assumes "field kvs ''license'' = JStr s"
    and "str_includes (toLowerCase s) ''nc''"
    and "\<not> str_includes (toLowerCase s) ''inc.''"
  shows "default_filter p (JObj kvs) =
           Inr (Some \<lparr>name = field kvs ''name'', version = field kvs ''version'',
                       license = JStr s, reason = ''license field contains NC keyword''\<rparr>)"
proof (rule default_filter_hit[OF assms(1)])
  show "list_ex (str_includes (toLowerCase s)) NC_KEYWORDS"
    using assms(2) by (simp add: NC_KEYWORDS_def)
  show "\<not> (str_includes (toLowerCase s) ''inc.'' \<and>
        filter (str_includes (toLowerCase s)) NC_KEYWORDS = [''nc''])"
    using assms(3) by simp
qed

theorem bare_nc_substring_flagged_witness:
  "field [(''name'', JStr ''sync''), (''version'', JStr ''2.1.0''),
          (''license'', JStr ''Sync Framework License'')] ''license'' = JStr ''Sync Framework License''
   \<and> str_includes (toLowerCase ''Sync Framework License'') ''nc''
   \<and> \<not> str_includes (toLowerCase ''Sync Framework License'') ''inc.''
   \<and> default_filter ''node_modules/sync''
        (JObj [(''name'', JStr ''sync''), (''version'', JStr ''2.1.0''),
               (''license'', JStr ''Sync Framework License'')]) =
       Inr (Some \<lparr>name = JStr ''sync'', version = JStr ''2.1.0'',
                   license = JStr ''Sync Framework License'',
                   reason = ''license field contains NC keyword''\<rparr>)"
proof -
  have h1: "field [(''name'', JStr ''sync''), (''version'', JStr ''2.1.0''),
          (''license'', JStr ''Sync Framework License'')] ''license'' = JStr ''Sync Framework License''"
    by (simp add: field_def)
  have l: "toLowerCase ''Sync Framework License'' = ''sync framework license''"
    by (simp add: case_eval)
  have h2: "str_includes (toLowerCase ''Sync Framework License'') ''nc''"
    unfolding l by simp
  have h3: "\<not> str_includes (toLowerCase ''Sync Framework License'') ''inc.''"
    unfolding l by simp
  have n: "field [(''name'', JStr ''sync''), (''version'', JStr ''2.1.0''),
          (''license'', JStr ''Sync Framework License'')] ''name'' = JStr ''sync''"
    by (simp add: field_def)
  have v: "field [(''name'', JStr ''sync''), (''version'', JStr ''2.1.0''),
          (''license'', JStr ''Sync Framework License'')] ''version'' = JStr ''2.1.0''"
    by (simp add: field_def)
  note r = bare_nc_substring_flagged[OF h1 h2 h3, of "''node_modules/sync''", unfolded n v]
  show ?thesis using h1 h2 h3 r by blast
qed

text \<open>
  C1. For a manifest with a string license, the identifier filter returns a verdict exactly
  when that string equals, case-insensitively, one of the ten identifiers of its table, and
  nothing for any other string (a padded or a compound one included); the verdict carries the
  string as it was written. For ASCII text, equal case-insensitively is the same as having
  the lower-case form of an identifier.
\<close>

theorem identifier_filter_exact_membership:
  assumes "field kvs ''license'' = JStr s"
  shows "spdx_filter p (JObj kvs) =
    (if \<exists>t \<in> set NON_COMMERCIAL_SPDX. equals_ignoring_case s t
     then Inr (Some \<lparr>name = field kvs ''name'', version = field kvs ''version'',
                     license = JStr s,
                     reason = ''SPDX identifier is known to be non-commercial''\<rparr>)
     else Inr None)
   \<and> (list_all is_ascii s \<longrightarrow>
        ((\<exists>t \<in> set NON_COMMERCIAL_SPDX. equals_ignoring_case s t) \<longleftrightarrow>
         (\<exists>t \<in> set NON_COMMERCIAL_SPDX. toLowerCase s = toLowerCase t)))"
proof
  show "spdx_filter p (JObj kvs) =
    (if \<exists>t \<in> set NON_COMMERCIAL_SPDX. equals_ignoring_case s t
     then Inr (Some \<lparr>name = field kvs ''name'', version = field kvs ''version'',
                     license = JStr s,
                     reason = ''SPDX identifier is known to be non-commercial''\<rparr>)
     else Inr None)"
    unfolding spdx_filter_string[OF assms] spdx_member_iff ..
  show "list_all is_ascii s \<longrightarrow>
        ((\<exists>t \<in> set NON_COMMERCIAL_SPDX. equals_ignoring_case s t) \<longleftrightarrow>
         (\<exists>t \<in> set NON_COMMERCIAL_SPDX. toLowerCase s = toLowerCase t))"
    using spdx_ascii_lower_iff by blast
qed

theorem identifier_filter_exact_membership_witness:
  "field [(''name'', JStr ''a''), (''version'', JStr ''1.0.0''),
          (''license'', JStr ''cc-by-nc-sa-2.5'')] ''license'' = JStr ''cc-by-nc-sa-2.5''
   \<and> spdx_filter ''node_modules/a''
        (JObj [(''name'', JStr ''a''), (''version'', JStr ''1.0.0''),
               (''license'', JStr ''cc-by-nc-sa-2.5'')]) =
       Inr (Some \<lparr>name = JStr ''a'', version = JStr ''1.0.0'',
                   license = JStr ''cc-by-nc-sa-2.5'',
                   reason = ''SPDX identifier is known to be non-commercial''\<rparr>)
   \<and> field [(''license'', JStr ''  CC-BY-NC-4.0  '')] ''license'' = JStr ''  CC-BY-NC-4.0  ''
   \<and> spdx_filter ''node_modules/b'' (JObj [(''license'', JStr ''  CC-BY-NC-4.0  '')]) = Inr None
   \<and> field [(''license'', JStr (''CC-BY-NC-'' @ [CHR 0xC5, CHR 0xBF] @ ''A-4.0''))] ''license'' =
       JStr (''CC-BY-NC-'' @ [CHR 0xC5, CHR 0xBF] @ ''A-4.0'')
   \<and> spdx_filter ''node_modules/c''
        (JObj [(''license'', JStr (''CC-BY-NC-'' @ [CHR 0xC5, CHR 0xBF] @ ''A-4.0''))]) =
       Inr (Some \<lparr>name = JUndefined, version = JUndefined,
                   license = JStr (''CC-BY-NC-'' @ [CHR 0xC5, CHR 0xBF] @ ''A-4.0''),
                   reason = ''SPDX identifier is known to be non-commercial''\<rparr>)"
proof -
  let ?a = "[(''name'', JStr ''a''), (''version'', JStr ''1.0.0''),
          (''license'', JStr ''cc-by-nc-sa-2.5'')]"
  let ?b = "[(''license'', JStr ''  CC-BY-NC-4.0  '')]"
  let ?c = "[(''license'', JStr (''CC-BY-NC-'' @ [CHR 0xC5, CHR 0xBF] @ ''A-4.0''))]"
  have ha: "field ?a ''license'' = JStr ''cc-by-nc-sa-2.5''" by (simp add: field_def)
  have hb: "field ?b ''license'' = JStr ''  CC-BY-NC-4.0  ''" by (simp add: field_def)
  have hc: "field ?c ''license'' = JStr (''CC-BY-NC-'' @ [CHR 0xC5, CHR 0xBF] @ ''A-4.0'')"
    by (simp add: field_def)
  have n: "field ?a ''name'' = JStr ''a''" by (simp add: field_def)
  have v: "field ?a ''version'' = JStr ''1.0.0''" by (simp add: field_def)
  have nc: "field ?c ''name'' = JUndefined" by (simp add: field_def)
  have vc: "field ?c ''version'' = JUndefined" by (simp add: field_def)
  have ea: "(\<exists>t \<in> set NON_COMMERCIAL_SPDX. equals_ignoring_case ''cc-by-nc-sa-2.5'' t) = True"
    by (simp add: NON_COMMERCIAL_SPDX_def equals_ignoring_case_def case_eval)
  have eb: "(\<exists>t \<in> set NON_COMMERCIAL_SPDX. equals_ignoring_case ''  CC-BY-NC-4.0  '' t) = False"
    by (simp add: NON_COMMERCIAL_SPDX_def equals_ignoring_case_def case_eval)
  have ec: "(\<exists>t \<in> set NON_COMMERCIAL_SPDX.
      equals_ignoring_case (''CC-BY-NC-'' @ [CHR 0xC5, CHR 0xBF] @ ''A-4.0'') t) = True"
    by (simp add: NON_COMMERCIAL_SPDX_def equals_ignoring_case_def case_eval)
  note ra = identifier_filter_exact_membership[OF ha, of "''node_modules/a''",
      THEN conjunct1, unfolded ea n v if_True]
  note rb = identifier_filter_exact_membership[OF hb, of "''node_modules/b''",
      THEN conjunct1, unfolded eb if_False]
  note rc = identifier_filter_exact_membership[OF hc, of "''node_modules/c''",
      THEN conjunct1, unfolded ec nc vc if_True]
  show ?thesis using ha hb hc ra rb rc by blast
qed

text \<open>
  C2. When the lowercased string license contains \<open>inc.\<close>, the keyword filter returns nothing
  if \<open>nc\<close> is the only vocabulary term it contains, and still returns its verdict if any
  other vocabulary term is contained.
\<close>

theorem inc_guard_suppresses_only_bare_nc:
  assumes "field kvs ''license'' = JStr s"
    and "str_includes (toLowerCase s) ''inc.''"
  shows "default_filter p (JObj kvs) =
    (if \<exists>k \<in> set NC_KEYWORDS. k \<noteq> ''nc'' \<and> str_includes (toLowerCase s) k
     then Inr (Some \<lparr>name = field kvs ''name'', version = field kvs ''version'',
                     license = JStr s, reason = ''license field contains NC keyword''\<rparr>)
     else Inr None)"
proof -
  let ?L = "toLowerCase s"
  have nc: "str_includes ?L ''nc''" using assms(2) by (rule inc_includes_nc)
  then have ex: "list_ex (str_includes ?L) NC_KEYWORDS" by (simp add: NC_KEYWORDS_def)
  have "?L \<noteq> []" using ex by (rule list_ex_NC_KEYWORDS_nonempty)
  then have ne: "s \<noteq> []" by simp
  have only: "filter (str_includes ?L) NC_KEYWORDS = [''nc''] \<longleftrightarrow>
      \<not> (\<exists>k \<in> set NC_KEYWORDS. k \<noteq> ''nc'' \<and> str_includes ?L k)"
    using nc by (auto simp: NC_KEYWORDS_def)
  show ?thesis
    unfolding default_filter_string[OF assms(1) ne] using ex assms(2) only by simp
qed

theorem inc_guard_witness:
  "field [(''name'', JStr ''g''), (''version'', JStr ''3.0.0''),
          (''license'', JStr ''GNU General Public License v3.0 (Inc.)'')] ''license'' =
     JStr ''GNU General Public License v3.0 (Inc.)''
   \<and> str_includes (toLowerCase ''GNU General Public License v3.0 (Inc.)'') ''inc.''
   \<and> default_filter ''node_modules/g''
        (JObj [(''name'', JStr ''g''), (''version'', JStr ''3.0.0''),
               (''license'', JStr ''GNU General Public License v3.0 (Inc.)'')]) = Inr None
   \<and> field [(''license'', JStr ''Acme Inc. Non-Commercial License'')] ''license'' =
     JStr ''Acme Inc. Non-Commercial License''
   \<and> str_includes (toLowerCase ''Acme Inc. Non-Commercial License'') ''inc.''
   \<and> default_filter ''node_modules/h''
        (JObj [(''license'', JStr ''Acme Inc. Non-Commercial License'')]) =
       Inr (Some \<lparr>name = JUndefined, version = JUndefined,
                   license = JStr ''Acme Inc. Non-Commercial License'',
                   reason = ''license field contains NC keyword''\<rparr>)"
proof -
  let ?g = "[(''name'', JStr ''g''), (''version'', JStr ''3.0.0''),
          (''license'', JStr ''GNU General Public License v3.0 (Inc.)'')]"
  let ?h = "[(''license'', JStr ''Acme Inc. Non-Commercial License'')]"
  have hg: "field ?g ''license'' = JStr ''GNU General Public License v3.0 (Inc.)''"
    by (simp add: field_def)
  have hh: "field ?h ''license'' = JStr ''Acme Inc. Non-Commercial License''"
    by (simp add: field_def)
  have n: "field ?h ''name'' = JUndefined" by (simp add: field_def)
  have v: "field ?h ''version'' = JUndefined" by (simp add: field_def)
  have lg: "toLowerCase ''GNU General Public License v3.0 (Inc.)'' =
      ''gnu general public license v3.0 (inc.)''"
    by (simp add: case_eval)
  have lh: "toLowerCase ''Acme Inc. Non-Commercial License'' =
      ''acme inc. non-commercial license''"
    by (simp add: case_eval)
  have ig: "str_includes (toLowerCase ''GNU General Public License v3.0 (Inc.)'') ''inc.''"
    unfolding lg by simp
  have ih: "str_includes (toLowerCase ''Acme Inc. Non-Commercial License'') ''inc.''"
    unfolding lh by simp
  have eg: "(\<exists>k \<in> set NC_KEYWORDS. k \<noteq> ''nc'' \<and>
       str_includes (toLowerCase ''GNU General Public License v3.0 (Inc.)'') k) = False"
    unfolding lg by (simp add: NC_KEYWORDS_def)
  have eh: "(\<exists>k \<in> set NC_KEYWORDS. k \<noteq> ''nc'' \<and>
       str_includes (toLowerCase ''Acme Inc. Non-Commercial License'') k) = True"
    unfolding lh by (simp add: NC_KEYWORDS_def)
  note rg = inc_guard_suppresses_only_bare_nc[OF hg ig, of "''node_modules/g''", unfolded eg if_False]
  note rh = inc_guard_suppresses_only_bare_nc[OF hh ih, of "''node_modules/h''", unfolded eh n v if_True]
  show ?thesis using hg hh ig ih rg rh by blast
qed

text \<open>
  C3. The claim: a license that is present but not a string (a number, an object such as
  \<open>{type: "MIT"}\<close>), or an array entry whose type is not a string, makes each filter return
  nothing. The filters call \<open>toLowerCase\<close> / \<open>toUpperCase\<close> on the value without testing
  that it is a string, so on these manifests the call throws a TypeError.
\<close>

theorem non_string_license_raises:
  "default_filter ''node_modules/old''
     (JObj [(''name'', JStr ''old''), (''version'', JStr ''0.1.0''),
            (''license'', JObj [(''type'', JStr ''MIT'')])]) = Inl TypeError
   \<and> spdx_filter ''node_modules/old''
     (JObj [(''name'', JStr ''old''), (''version'', JStr ''0.1.0''),
            (''license'', JObj [(''type'', JStr ''MIT'')])]) = Inl TypeError
   \<and> default_filter ''node_modules/num''
     (JObj [(''name'', JStr ''num''), (''version'', JStr ''0.1.0''),
            (''license'', JNum 42)]) = Inl TypeError
   \<and> spdx_filter ''node_modules/num''
     (JObj [(''name'', JStr ''num''), (''version'', JStr ''0.1.0''),
            (''license'', JNum 42)]) = Inl TypeError
   \<and> default_filter ''node_modules/arr''
     (JObj [(''name'', JStr ''arr''), (''version'', JStr ''0.1.0''),
            (''licenses'', JArr [JObj [(''type'', JNum 42)]])]) = Inl TypeError"
  by (simp add: filter_eval)

text \<open>
  C4. The claim has the keyword filter fall back to the licenses array whenever the string
  license gave no verdict, in particular after the \<open>inc.\<close> guard suppressed a bare \<open>nc\<close>.
  The guard returns at once: with license \<open>Foo Inc.\<close> and a licenses array holding
  \<open>CC-BY-NC-4.0\<close> the filter returns nothing.
\<close>

theorem inc_guard_returns_before_licenses_array:
  "str_includes (toLowerCase ''Foo Inc.'') ''inc.''
   \<and> filter (str_includes (toLowerCase ''Foo Inc.'')) NC_KEYWORDS = [''nc'']
   \<and> list_ex (str_includes (toLowerCase ''CC-BY-NC-4.0'')) NC_KEYWORDS
   \<and> default_filter ''node_modules/foo''
        (JObj [(''name'', JStr ''foo''), (''version'', JStr ''1.0.0''),
               (''license'', JStr ''Foo Inc.''),
               (''licenses'', JArr [JObj [(''type'', JStr ''CC-BY-NC-4.0'')]])]) = Inr None"
  by (simp add: filter_eval)

text \<open>
  C4, amended. When the license field is absent (or otherwise falsy), or is a string that
  contains no vocabulary term at all, the keyword filter goes through the licenses array in
  order: entries that are passed over (not an object, no type, or a string type without a
  vocabulary term) are skipped, and the first entry whose lowercased string type contains a
  vocabulary term gives the verdict, with that entry's type as written for its license and
  the reason \<open>licenses array contains NC keyword\<close>. No \<open>inc.\<close> guard applies to the entries.
\<close>

theorem licenses_array_fallback:
  assumes "field kvs ''license'' = l"
    and "\<not> truthy l \<or> (\<exists>s. l = JStr s \<and> \<not> list_ex (str_includes (toLowerCase s)) NC_KEYWORDS)"
    and "field kvs ''licenses'' = JArr (pre @ JObj tkvs # post)"
    and "list_all entry_skipped pre"
    and "field tkvs ''type'' = JStr t"
    and "list_ex (str_includes (toLowerCase t)) NC_KEYWORDS"
  shows "default_filter p (JObj kvs) =
     Inr (Some \<lparr>name = field kvs ''name'', version = field kvs ''version'',
                 license = JStr t, reason = ''licenses array contains NC keyword''\<rparr>)"
  unfolding default_filter_no_string_match[OF assms(1,2)] assms(3) js.case
    licenses_loop_skip_all[OF assms(4)]
  by (rule licenses_loop_match[OF assms(5,6)])

theorem licenses_array_fallback_witness:
  "field [(''name'', JStr ''legacy''), (''version'', JStr ''0.9.0''),
          (''licenses'', JArr [JStr ''MIT'', JObj [(''type'', JStr ''MIT'')],
                               JObj [(''type'', JStr ''Foo Inc. License'')],
                               JObj [(''type'', JStr ''CC-BY-NC-4.0'')]])] ''license'' = JUndefined
   \<and> \<not> truthy JUndefined
   \<and> list_all entry_skipped [JStr ''MIT'', JObj [(''type'', JStr ''MIT'')]]
   \<and> field [(''type'', JStr ''Foo Inc. License'')] ''type'' = JStr ''Foo Inc. License''
   \<and> list_ex (str_includes (toLowerCase ''Foo Inc. License'')) NC_KEYWORDS
   \<and> default_filter ''node_modules/legacy''
        (JObj [(''name'', JStr ''legacy''), (''version'', JStr ''0.9.0''),
               (''licenses'', JArr [JStr ''MIT'', JObj [(''type'', JStr ''MIT'')],
                                    JObj [(''type'', JStr ''Foo Inc. License'')],
                                    JObj [(''type'', JStr ''CC-BY-NC-4.0'')]])]) =
       Inr (Some \<lparr>name = JStr ''legacy'', version = JStr ''0.9.0'',
                   license = JStr ''Foo Inc. License'',
                   reason = ''licenses array contains NC keyword''\<rparr>)"
proof -
  let ?kvs = "[(''name'', JStr ''legacy''), (''version'', JStr ''0.9.0''),
          (''licenses'', JArr [JStr ''MIT'', JObj [(''type'', JStr ''MIT'')],
                               JObj [(''type'', JStr ''Foo Inc. License'')],
                               JObj [(''type'', JStr ''CC-BY-NC-4.0'')]])]"
  have h1: "field ?kvs ''license'' = JUndefined" by (simp add: field_def)
  have h2: "\<not> truthy JUndefined" by simp
  have h3: "field ?kvs ''licenses'' =
      JArr ([JStr ''MIT'', JObj [(''type'', JStr ''MIT'')]]
            @ JObj [(''type'', JStr ''Foo Inc. License'')]
            # [JObj [(''type'', JStr ''CC-BY-NC-4.0'')]])"
    by (simp add: field_def)
  have h4: "list_all entry_skipped [JStr ''MIT'', JObj [(''type'', JStr ''MIT'')]]"
    by (simp add: entry_skipped_def field_def NC_KEYWORDS_def case_eval)
  have h5: "field [(''type'', JStr ''Foo Inc. License'')] ''type'' = JStr ''Foo Inc. License''"
    by (simp add: field_def)
  have h6: "list_ex (str_includes (toLowerCase ''Foo Inc. License'')) NC_KEYWORDS"
    by (simp add: NC_KEYWORDS_def case_eval)
  have n: "field ?kvs ''name'' = JStr ''legacy''" by (simp add: field_def)
  have v: "field ?kvs ''version'' = JStr ''0.9.0''" by (simp add: field_def)
  note r = licenses_array_fallback[OF h1 disjI1[OF h2] h3 h4 h5 h6,
      of "''node_modules/legacy''", unfolded n v]
  show ?thesis using h1 h2 h4 h5 h6 r by blast
qed

text \<open>
  C5. Given filters that return (a verdict or nothing) on the manifest, the runner calls them
  in list order and returns the list of exactly the verdicts produced, in that order, each
  with \<open> (filter: <name>)\<close> appended to its reason, after the results collected before; the
  list may be empty.
\<close>

theorem scan_filters_collects_annotated:
  assumes "\<forall>(fname, fn) \<in> set filters. \<exists>res. fn p j = Inr res"
  shows "scan_filters filters p j results =
     Inr (results @
          List.map_filter
            (\<lambda>(fname, fn).
               case fn p j of
                 Inr (Some r) \<Rightarrow> Some (r\<lparr>reason := reason r @ '' (filter: '' @ fname @ '')''\<rparr>)
               | _ \<Rightarrow> None)
            filters)"
  using assms
proof (induction filters arbitrary: results)
  case Nil
  show ?case by simp
next
  case (Cons f filters)
  obtain fname fn where f: "f = (fname, fn)" by (cases f)
  from Cons.prems f obtain res where res: "fn p j = Inr res" by auto
  from Cons.prems have rest: "\<forall>(fname, fn) \<in> set filters. \<exists>res. fn p j = Inr res" by simp
  show ?case
  proof (cases res)
    case None
    with f res Cons.IH[OF rest, of results] show ?thesis
      by (simp add: bindE_def)
  next
    case (Some r)
    with f res
      Cons.IH[OF rest, of "results @ [r\<lparr>reason := reason r @ '' (filter: '' @ fname @ '')''\<rparr>]"]
    show ?thesis
      by (simp add: bindE_def)
  qed
qed

theorem scan_filters_collects_annotated_witness:
  "default_filter ''node_modules/cc''
      (JObj [(''name'', JStr ''cc''), (''version'', JStr ''1.2.3''),
             (''license'', JStr ''CC-BY-NC-SA-4.0'')]) =
     Inr (Some \<lparr>name = JStr ''cc'', version = JStr ''1.2.3'',
                 license = JStr ''CC-BY-NC-SA-4.0'',
                 reason = ''license field contains NC keyword''\<rparr>)
   \<and> spdx_filter ''node_modules/cc''
      (JObj [(''name'', JStr ''cc''), (''version'', JStr ''1.2.3''),
             (''license'', JStr ''CC-BY-NC-SA-4.0'')]) =
     Inr (Some \<lparr>name = JStr ''cc'', version = JStr ''1.2.3'',
                 license = JStr ''CC-BY-NC-SA-4.0'',
                 reason = ''SPDX identifier is known to be non-commercial''\<rparr>)
   \<and> scan_filters [(''default-filter'', default_filter), (''spdx-filter'', spdx_filter)]
        ''node_modules/cc''
        (JObj [(''name'', JStr ''cc''), (''version'', JStr ''1.2.3''),
               (''license'', JStr ''CC-BY-NC-SA-4.0'')]) [] =
       Inr [\<lparr>name = JStr ''cc'', version = JStr ''1.2.3'',
             license = JStr ''CC-BY-NC-SA-4.0'',
             reason = ''license field contains NC keyword (filter: default-filter)''\<rparr>,
            \<lparr>name = JStr ''cc'', version = JStr ''1.2.3'',
             license = JStr ''CC-BY-NC-SA-4.0'',
             reason = ''SPDX identifier is known to be non-commercial (filter: spdx-filter)''\<rparr>]"
proof -
  let ?j = "JObj [(''name'', JStr ''cc''), (''version'', JStr ''1.2.3''),
             (''license'', JStr ''CC-BY-NC-SA-4.0'')]"
  let ?p = "''node_modules/cc''"
  have d: "default_filter ?p ?j =
     Inr (Some \<lparr>name = JStr ''cc'', version = JStr ''1.2.3'',
                 license = JStr ''CC-BY-NC-SA-4.0'',
                 reason = ''license field contains NC keyword''\<rparr>)"
    by (simp add: filter_eval)
  have s: "spdx_filter ?p ?j =
     Inr (Some \<lparr>name = JStr ''cc'', version = JStr ''1.2.3'',
                 license = JStr ''CC-BY-NC-SA-4.0'',
                 reason = ''SPDX identifier is known to be non-commercial''\<rparr>)"
    by (simp add: filter_eval)
  have h: "\<forall>(fname, fn) \<in> set [(''default-filter'', default_filter), (''spdx-filter'', spdx_filter)].
      \<exists>res. fn ?p ?j = Inr res"
    by (simp add: d s)
  have r: "scan_filters [(''default-filter'', default_filter), (''spdx-filter'', spdx_filter)]
        ?p ?j [] =
       Inr [\<lparr>name = JStr ''cc'', version = JStr ''1.2.3'',
             license = JStr ''CC-BY-NC-SA-4.0'',
             reason = ''license field contains NC keyword (filter: default-filter)''\<rparr>,
            \<lparr>name = JStr ''cc'', version = JStr ''1.2.3'',
             license = JStr ''CC-BY-NC-SA-4.0'',
             reason = ''SPDX identifier is known to be non-commercial (filter: spdx-filter)''\<rparr>]"
    unfolding scan_filters_collects_annotated[OF h, of "[]"]
    by (simp add: d s)
  show ?thesis using d s r by blast
qed

text \<open>
  C6. The claim: a manifest without a name or a version gets no verdict. Neither filter looks
  at the name or the version before deciding: a manifest holding only the license
  \<open>CC-BY-NC-4.0\<close> is flagged by both, with an undefined name and version.
\<close>

theorem missing_name_version_still_flagged:
  "field [(''license'', JStr ''CC-BY-NC-4.0'')] ''name'' = JUndefined
   \<and> field [(''license'', JStr ''CC-BY-NC-4.0'')] ''version'' = JUndefined
   \<and> default_filter ''node_modules/anon'' (JObj [(''license'', JStr ''CC-BY-NC-4.0'')]) =
       Inr (Some \<lparr>name = JUndefined, version = JUndefined, license = JStr ''CC-BY-NC-4.0'',
                   reason = ''license field contains NC keyword''\<rparr>)
   \<and> spdx_filter ''node_modules/anon'' (JObj [(''license'', JStr ''CC-BY-NC-4.0'')]) =
       Inr (Some \<lparr>name = JUndefined, version = JUndefined, license = JStr ''CC-BY-NC-4.0'',
                   reason = ''SPDX identifier is known to be non-commercial''\<rparr>)"
  by (simp add: filter_eval)

text \<open>
  C6, amended. Each filter decides on the license designation alone. A manifest missing its
  name or version gets exactly the outcome of any manifest with the same \<open>license\<close> and
  \<open>licenses\<close> fields, the verdict's name and version being copied from the manifest
  (undefined where they are missing).
\<close>

theorem name_version_not_consulted:
  assumes "field kvs' ''license'' = field kvs ''license''"
    and "field kvs' ''licenses'' = field kvs ''licenses''"
  shows "default_filter p (JObj kvs') =
           map_sum id (map_option (\<lambda>r. r\<lparr>name := field kvs' ''name'',
                                           version := field kvs' ''version''\<rparr>))
             (default_filter p (JObj kvs))
       \<and> spdx_filter p (JObj kvs') =
           map_sum id (map_option (\<lambda>r. r\<lparr>name := field kvs' ''name'',
                                           version := field kvs' ''version''\<rparr>))
             (spdx_filter p (JObj kvs))"
proof
  show "default_filter p (JObj kvs') =
           map_sum id (map_option (\<lambda>r. r\<lparr>name := field kvs' ''name'',
                                           version := field kvs' ''version''\<rparr>))
             (default_filter p (JObj kvs))"
    unfolding default_filter_def get_prop.simps make_result_JObj assms
    by (cases "call_toLowerCase (js_or (field kvs ''license'') (JStr ''''))")
       (auto simp: bindE_def licenses_loop_relabel[of kvs' _ kvs] split: js.splits)
  show "spdx_filter p (JObj kvs') =
           map_sum id (map_option (\<lambda>r. r\<lparr>name := field kvs' ''name'',
                                           version := field kvs' ''version''\<rparr>))
             (spdx_filter p (JObj kvs))"
    unfolding spdx_filter_def get_prop.simps make_result_JObj assms
    by (cases "call_toUpperCase (js_or (field kvs ''license'') (JStr ''''))")
       (auto simp: bindE_def)
qed

theorem name_version_not_consulted_witness:
  "field [(''license'', JStr ''CC-BY-NC-4.0'')] ''license'' =
     field [(''name'', JStr ''art''), (''version'', JStr ''2.0.0''),
            (''license'', JStr ''CC-BY-NC-4.0'')] ''license''
   \<and> field [(''license'', JStr ''CC-BY-NC-4.0'')] ''licenses'' =
     field [(''name'', JStr ''art''), (''version'', JStr ''2.0.0''),
            (''license'', JStr ''CC-BY-NC-4.0'')] ''licenses''
   \<and> default_filter ''node_modules/art''
        (JObj [(''name'', JStr ''art''), (''version'', JStr ''2.0.0''),
               (''license'', JStr ''CC-BY-NC-4.0'')]) =
       Inr (Some \<lparr>name = JStr ''art'', version = JStr ''2.0.0'',
                   license = JStr ''CC-BY-NC-4.0'',
                   reason = ''license field contains NC keyword''\<rparr>)
   \<and> default_filter ''node_modules/art'' (JObj [(''license'', JStr ''CC-BY-NC-4.0'')]) =
       Inr (Some \<lparr>name = JUndefined, version = JUndefined,
                   license = JStr ''CC-BY-NC-4.0'',
                   reason = ''license field contains NC keyword''\<rparr>)
   \<and> spdx_filter ''node_modules/art'' (JObj [(''license'', JStr ''CC-BY-NC-4.0'')]) =
       Inr (Some \<lparr>name = JUndefined, version = JUndefined,
                   license = JStr ''CC-BY-NC-4.0'',
                   reason = ''SPDX identifier is known to be non-commercial''\<rparr>)"
proof -
  let ?K = "[(''name'', JStr ''art''), (''version'', JStr ''2.0.0''),
            (''license'', JStr ''CC-BY-NC-4.0'')]"
  let ?K' = "[(''license'', JStr ''CC-BY-NC-4.0'')]"
  have h1: "field ?K' ''license'' = field ?K ''license''" by (simp add: field_def)
  have h2: "field ?K' ''licenses'' = field ?K ''licenses''" by (simp add: field_def)
  have n: "field ?K' ''name'' = JUndefined" by (simp add: field_def)
  have v: "field ?K' ''version'' = JUndefined" by (simp add: field_def)
  have dk: "default_filter ''node_modules/art'' (JObj ?K) =
       Inr (Some \<lparr>name = JStr ''art'', version = JStr ''2.0.0'',
                   license = JStr ''CC-BY-NC-4.0'',
                   reason = ''license field contains NC keyword''\<rparr>)"
    by (simp add: filter_eval)
  have sk: "spdx_filter ''node_modules/art'' (JObj ?K) =
       Inr (Some \<lparr>name = JStr ''art'', version = JStr ''2.0.0'',
                   license = JStr ''CC-BY-NC-4.0'',
                   reason = ''SPDX identifier is known to be non-commercial''\<rparr>)"
    by (simp add: filter_eval)
  note r = name_version_not_consulted[OF h1 h2, of "''node_modules/art''", unfolded dk sk n v]
  show ?thesis using h1 h2 dk r by simp
qed

text \<open>
  C8. A filter called twice on the same manifest gives the same outcome both times: it
  throws twice, or returns nothing twice, or returns two new objects that stand for one and
  the same verdict (name, version, license, reason). The outcome is the one the filter has on
  the manifest as a value: it depends neither on the path nor on what the first call left in
  the world, and both calls leave the module arrays and the manifest as they were.
\<close>

theorem classifier_twice_same_outcome:
  assumes "rep (objects w) pkgJson j"
    and "nc_keywords w = NC_KEYWORDS" and "non_commercial_spdx w = NON_COMMERCIAL_SPDX"
    and "(fn_h = default_filter_h \<and> fn = default_filter) \<or>
         (fn_h = spdx_filter_h \<and> fn = spdx_filter)"
    and "fn_h p1 pkgJson w = (out1, w1)"
    and "fn_h p2 pkgJson w1 = (out2, w2)"
  shows "((\<exists>e. out1 = Inl e \<and> out2 = Inl e \<and> fn p1 j = Inl e)
        \<or> (out1 = Inr VNull \<and> out2 = Inr VNull \<and> fn p1 j = Inr None)
        \<or> (\<exists>r1 r2 r. out1 = Inr (VRef r1) \<and> out2 = Inr (VRef r2) \<and> r1 \<noteq> r2
              \<and> rep (objects w2) (VRef r1) (js_of_result r)
              \<and> rep (objects w2) (VRef r2) (js_of_result r)
              \<and> fn p1 j = Inr (Some r)))
       \<and> nc_keywords w2 = NC_KEYWORDS \<and> non_commercial_spdx w2 = NON_COMMERCIAL_SPDX
       \<and> rep (objects w2) pkgJson j"
proof -
  have ref: "refines w' (fn_h p pkgJson w') (fn p j)"
    if "rep (objects w') pkgJson j" "nc_keywords w' = NC_KEYWORDS"
      "non_commercial_spdx w' = NON_COMMERCIAL_SPDX" for w' p
    using assms(4) default_filter_refines[OF that(1,2)] spdx_filter_refines[OF that(1,3)]
    by blast
  have path: "fn p2 j = fn p1 j"
    using assms(4) default_filter_path spdx_filter_path by metis
  note r1 = ref[OF assms(1,2,3), of p1, unfolded assms(5)]
  show ?thesis
  proof (cases "fn p1 j")
    case (Inl e)
    with r1 have 1: "out1 = Inl e" "w1 = w" by (simp_all add: refines_def)
    from ref[OF assms(1,2,3), of p2] assms(6) 1 path Inl
    have "out2 = Inl e" "w2 = w" by (simp_all add: refines_def)
    with 1 Inl assms(1,2,3) show ?thesis by simp
  next
    case (Inr res)
    show ?thesis
    proof (cases res)
      case None
      with r1 Inr have 1: "out1 = Inr VNull" "w1 = w" by (simp_all add: refines_def)
      from ref[OF assms(1,2,3), of p2] assms(6) 1 path Inr None
      have "out2 = Inr VNull" "w2 = w" by (simp_all add: refines_def)
      with 1 Inr None assms(1,2,3) show ?thesis by simp
    next
      case (Some r)
      with r1 Inr obtain n v l where
        1: "out1 = Inr (VRef (length (objects w)))"
          "w1 = w\<lparr>objects := objects w @
             [OObj [(''name'', n), (''version'', v), (''license'', l),
                    (''reason'', VStr (reason r))]]\<rparr>"
        and f1: "rep (objects w) n (name r)" "rep (objects w) v (version r)"
          "rep (objects w) l (license r)"
        by (auto simp: refines_def)
      have m1: "rep (objects w1) pkgJson j"
        unfolding 1(2) using rep_mono[OF assms(1)] by simp
      have k1: "nc_keywords w1 = NC_KEYWORDS" "non_commercial_spdx w1 = NON_COMMERCIAL_SPDX"
        unfolding 1(2) using assms(2,3) by simp_all
      from ref[OF m1 k1, of p2] assms(6) path Inr Some obtain n' v' l' where
        2: "out2 = Inr (VRef (length (objects w1)))"
          "w2 = w1\<lparr>objects := objects w1 @
             [OObj [(''name'', n'), (''version'', v'), (''license'', l'),
                    (''reason'', VStr (reason r))]]\<rparr>"
        and f2: "rep (objects w1) n' (name r)" "rep (objects w1) v' (version r)"
          "rep (objects w1) l' (license r)"
        by (auto simp: refines_def)
      have a: "rep (objects w2) (VRef (length (objects w))) (js_of_result r)"
        unfolding 2(2) 1(2) using rep_result[OF f1] by simp
      have b: "rep (objects w2) (VRef (length (objects w1))) (js_of_result r)"
        unfolding 2(2) using rep_result[OF f2, of "[]"] by simp
      have c: "length (objects w) \<noteq> length (objects w1)" unfolding 1(2) by simp
      have m2: "rep (objects w2) pkgJson j"
        unfolding 2(2) using rep_mono[OF m1] by simp
      have k2: "nc_keywords w2 = NC_KEYWORDS" "non_commercial_spdx w2 = NON_COMMERCIAL_SPDX"
        unfolding 2(2) using k1 by simp_all
      from 1(1) 2(1) a b c Inr Some m2 k2 show ?thesis by blast
    qed
  qed
qed

theorem classifier_twice_same_outcome_witness:
  "rep [OObj [(''name'', VStr ''cc''), (''version'', VStr ''1.2.3''), (''license'', VStr ''CC-BY-NC-SA-4.0'')]] (VRef 0)
     (JObj [(''name'', JStr ''cc''), (''version'', JStr ''1.2.3''), (''license'', JStr ''CC-BY-NC-SA-4.0'')])
   \<and> default_filter_h ''node_modules/cc'' (VRef 0)
       \<lparr>objects = [OObj [(''name'', VStr ''cc''), (''version'', VStr ''1.2.3''), (''license'', VStr ''CC-BY-NC-SA-4.0'')]],
      nc_keywords = NC_KEYWORDS, non_commercial_spdx = NON_COMMERCIAL_SPDX\<rparr> =
     (Inr (VRef 1),
      \<lparr>objects = [OObj [(''name'', VStr ''cc''), (''version'', VStr ''1.2.3''), (''license'', VStr ''CC-BY-NC-SA-4.0'')],
        OObj [(''name'', VStr ''cc''), (''version'', VStr ''1.2.3''), (''license'', VStr ''CC-BY-NC-SA-4.0''), (''reason'', VStr ''license field contains NC keyword'')]],
      nc_keywords = NC_KEYWORDS, non_commercial_spdx = NON_COMMERCIAL_SPDX\<rparr>)
   \<and> default_filter_h ''elsewhere'' (VRef 0)
       \<lparr>objects = [OObj [(''name'', VStr ''cc''), (''version'', VStr ''1.2.3''), (''license'', VStr ''CC-BY-NC-SA-4.0'')],
        OObj [(''name'', VStr ''cc''), (''version'', VStr ''1.2.3''), (''license'', VStr ''CC-BY-NC-SA-4.0''), (''reason'', VStr ''license field contains NC keyword'')]],
      nc_keywords = NC_KEYWORDS, non_commercial_spdx = NON_COMMERCIAL_SPDX\<rparr> =
     (Inr (VRef 2),
      \<lparr>objects = [OObj [(''name'', VStr ''cc''), (''version'', VStr ''1.2.3''), (''license'', VStr ''CC-BY-NC-SA-4.0'')],
        OObj [(''name'', VStr ''cc''), (''version'', VStr ''1.2.3''), (''license'', VStr ''CC-BY-NC-SA-4.0''), (''reason'', VStr ''license field contains NC keyword'')],
        OObj [(''name'', VStr ''cc''), (''version'', VStr ''1.2.3''), (''license'', VStr ''CC-BY-NC-SA-4.0''), (''reason'', VStr ''license field contains NC keyword'')]],
      nc_keywords = NC_KEYWORDS, non_commercial_spdx = NON_COMMERCIAL_SPDX\<rparr>)
   \<and> rep (objects
       \<lparr>objects = [OObj [(''name'', VStr ''cc''), (''version'', VStr ''1.2.3''), (''license'', VStr ''CC-BY-NC-SA-4.0'')],
        OObj [(''name'', VStr ''cc''), (''version'', VStr ''1.2.3''), (''license'', VStr ''CC-BY-NC-SA-4.0''), (''reason'', VStr ''license field contains NC keyword'')],
        OObj [(''name'', VStr ''cc''), (''version'', VStr ''1.2.3''), (''license'', VStr ''CC-BY-NC-SA-4.0''), (''reason'', VStr ''license field contains NC keyword'')]],
      nc_keywords = NC_KEYWORDS, non_commercial_spdx = NON_COMMERCIAL_SPDX\<rparr>)
       (VRef 1)
       (js_of_result \<lparr>name = JStr ''cc'', version = JStr ''1.2.3'', license = JStr ''CC-BY-NC-SA-4.0'', reason = ''license field contains NC keyword''\<rparr>)
   \<and> rep (objects
       \<lparr>objects = [OObj [(''name'', VStr ''cc''), (''version'', VStr ''1.2.3''), (''license'', VStr ''CC-BY-NC-SA-4.0'')],
        OObj [(''name'', VStr ''cc''), (''version'', VStr ''1.2.3''), (''license'', VStr ''CC-BY-NC-SA-4.0''), (''reason'', VStr ''license field contains NC keyword'')],
        OObj [(''name'', VStr ''cc''), (''version'', VStr ''1.2.3''), (''license'', VStr ''CC-BY-NC-SA-4.0''), (''reason'', VStr ''license field contains NC keyword'')]],
      nc_keywords = NC_KEYWORDS, non_commercial_spdx = NON_COMMERCIAL_SPDX\<rparr>)
       (VRef 2)
       (js_of_result \<lparr>name = JStr ''cc'', version = JStr ''1.2.3'', license = JStr ''CC-BY-NC-SA-4.0'', reason = ''license field contains NC keyword''\<rparr>)"
proof -
  let ?w0 = "\<lparr>objects = [OObj [(''name'', VStr ''cc''), (''version'', VStr ''1.2.3''), (''license'', VStr ''CC-BY-NC-SA-4.0'')]],
      nc_keywords = NC_KEYWORDS, non_commercial_spdx = NON_COMMERCIAL_SPDX\<rparr>"
  let ?w1 = "\<lparr>objects = [OObj [(''name'', VStr ''cc''), (''version'', VStr ''1.2.3''), (''license'', VStr ''CC-BY-NC-SA-4.0'')],
        OObj [(''name'', VStr ''cc''), (''version'', VStr ''1.2.3''), (''license'', VStr ''CC-BY-NC-SA-4.0''), (''reason'', VStr ''license field contains NC keyword'')]],
      nc_keywords = NC_KEYWORDS, non_commercial_spdx = NON_COMMERCIAL_SPDX\<rparr>"
  let ?w2 = "\<lparr>objects = [OObj [(''name'', VStr ''cc''), (''version'', VStr ''1.2.3''), (''license'', VStr ''CC-BY-NC-SA-4.0'')],
        OObj [(''name'', VStr ''cc''), (''version'', VStr ''1.2.3''), (''license'', VStr ''CC-BY-NC-SA-4.0''), (''reason'', VStr ''license field contains NC keyword'')],
        OObj [(''name'', VStr ''cc''), (''version'', VStr ''1.2.3''), (''license'', VStr ''CC-BY-NC-SA-4.0''), (''reason'', VStr ''license field contains NC keyword'')]],
      nc_keywords = NC_KEYWORDS, non_commercial_spdx = NON_COMMERCIAL_SPDX\<rparr>"
  let ?j = "JObj [(''name'', JStr ''cc''), (''version'', JStr ''1.2.3''), (''license'', JStr ''CC-BY-NC-SA-4.0'')]"
  let ?r = "\<lparr>name = JStr ''cc'', version = JStr ''1.2.3'', license = JStr ''CC-BY-NC-SA-4.0'', reason = ''license field contains NC keyword''\<rparr>"
  have h1: "rep (objects ?w0) (VRef 0) ?j" by simp
  have h2: "nc_keywords ?w0 = NC_KEYWORDS" by simp
  have h3: "non_commercial_spdx ?w0 = NON_COMMERCIAL_SPDX" by simp
  have c1: "default_filter_h ''node_modules/cc'' (VRef 0) ?w0 = (Inr (VRef 1), ?w1)"
    by (simp add: default_filter_h_def spdx_filter_h_def make_result_h_def bindS_def returnS_def throwS_def val_or_def
      read_NC_KEYWORDS_def read_NON_COMMERCIAL_SPDX_def new_object_def field_v_def
      NC_KEYWORDS_def NON_COMMERCIAL_SPDX_def case_eval)
  have c2: "default_filter_h ''elsewhere'' (VRef 0) ?w1 = (Inr (VRef 2), ?w2)"
    by (simp add: default_filter_h_def spdx_filter_h_def make_result_h_def bindS_def returnS_def throwS_def val_or_def
      read_NC_KEYWORDS_def read_NON_COMMERCIAL_SPDX_def new_object_def field_v_def
      NC_KEYWORDS_def NON_COMMERCIAL_SPDX_def case_eval)
  have d: "default_filter ''node_modules/cc'' ?j = Inr (Some ?r)"
    by (simp add: filter_eval)
  from classifier_twice_same_outcome[OF h1 h2 h3 disjI1[OF conjI[OF refl refl]] c1 c2] d
  have "rep (objects ?w2) (VRef 1) (js_of_result ?r) \<and>
        rep (objects ?w2) (VRef 2) (js_of_result ?r)"
    by auto
  with h1 c1 c2 show ?thesis by simp
qed

text \<open>
  C9. A call of either filter leaves every object that was there before it as it was, the
  manifest and all it refers to included, and the module arrays too; so does the runner over
  any list of the two filters. When a filter has returned a verdict, the runner's one write
  is to that new object, and only to its reason: the object keeps the name, version and
  license the filter gave it and gets the suffix appended to its reason. Over a whole run,
  on a manifest object that stands for the tree \<open>j\<close>, with the module arrays as the
  modules define them: the runner throws exactly when the runner on the tree does, and
  otherwise the references it has collected are, in order, objects that stand for the verdicts
  the runner on the tree collects, which differ from the filters' verdicts in the reason only.
\<close>

theorem manifest_untouched_only_reason_annotated:
  assumes "fn = default_filter_h \<or> fn = spdx_filter_h"
    and "\<forall>(fname, f) \<in> set filters. f = default_filter_h \<or> f = spdx_filter_h"
  shows "take (length (objects w)) (objects (snd (fn p pkgJson w))) = objects w
       \<and> nc_keywords (snd (fn p pkgJson w)) = nc_keywords w
       \<and> non_commercial_spdx (snd (fn p pkgJson w)) = non_commercial_spdx w
       \<and> take (length (objects w)) (objects (snd (scan_filters_h filters p pkgJson results w))) =
           objects w
       \<and> nc_keywords (snd (scan_filters_h filters p pkgJson results w)) = nc_keywords w
       \<and> non_commercial_spdx (snd (scan_filters_h filters p pkgJson results w)) =
           non_commercial_spdx w
       \<and> (\<forall>res w1. fn p pkgJson w = (Inr res, w1) \<longrightarrow> truthy_v res \<longrightarrow>
            (\<exists>n v l r.
               res = VRef (length (objects w)) \<and>
               w1 = w\<lparr>objects := objects w @
                      [OObj [(''name'', n), (''version'', v), (''license'', l),
                             (''reason'', VStr r)]]\<rparr> \<and>
               scan_filters_h ((fname, fn) # filters) p pkgJson results w =
                 scan_filters_h filters p pkgJson (results @ [res])
                   (w\<lparr>objects := objects w @
                      [OObj [(''name'', n), (''version'', v), (''license'', l),
                             (''reason'', VStr (r @ '' (filter: '' @ fname @ '')''))]]\<rparr>)))
       \<and> (rep (objects w) pkgJson j \<longrightarrow>
          nc_keywords w = NC_KEYWORDS \<longrightarrow> non_commercial_spdx w = NON_COMMERCIAL_SPDX \<longrightarrow>
          list_all2 (\<lambda>hf f. fst hf = fst f \<and>
             ((snd hf = default_filter_h \<and> snd f = default_filter) \<or>
              (snd hf = spdx_filter_h \<and> snd f = spdx_filter))) filters pure_filters \<longrightarrow>
          (case scan_filters pure_filters p j acc of
             Inl e \<Rightarrow> fst (scan_filters_h filters p pkgJson results w) = Inl e
           | Inr out \<Rightarrow>
               (\<exists>refs vs. out = acc @ vs \<and>
                  fst (scan_filters_h filters p pkgJson results w) = Inr (results @ refs) \<and>
                  list_all2 (\<lambda>ref r.
                      rep (objects (snd (scan_filters_h filters p pkgJson results w))) ref
                        (js_of_result r)) refs vs)))"
proof -
  have vr: "verdict_run (fn p pkgJson)" using assms(1) by (rule builtin_verdict_run)
  have vrs: "\<forall>(fname, f) \<in> set filters. verdict_run (f p pkgJson)"
    using assms(2) builtin_verdict_run by fastforce
  note a = verdict_run_frame[OF vr, of w]
  note b = scan_filters_h_frame[OF vrs, of results w
      "fst (scan_filters_h filters p pkgJson results w)"
      "snd (scan_filters_h filters p pkgJson results w)", simplified]
  have c: "\<exists>n v l r.
               res = VRef (length (objects w)) \<and>
               w1 = w\<lparr>objects := objects w @
                      [OObj [(''name'', n), (''version'', v), (''license'', l),
                             (''reason'', VStr r)]]\<rparr> \<and>
               scan_filters_h ((fname, fn) # filters) p pkgJson results w =
                 scan_filters_h filters p pkgJson (results @ [res])
                   (w\<lparr>objects := objects w @
                      [OObj [(''name'', n), (''version'', v), (''license'', l),
                             (''reason'', VStr (r @ '' (filter: '' @ fname @ '')''))]]\<rparr>)"
    if run: "fn p pkgJson w = (Inr res, w1)" and tr: "truthy_v res" for res w1
  proof -
    from vr consider
        (throw) e where "fn p pkgJson w = (Inl e, w)"
      | (null) "fn p pkgJson w = (Inr VNull, w)"
      | (verdict) n v l r where "fn p pkgJson w = (Inr (VRef (length (objects w))),
          w\<lparr>objects := objects w @
            [OObj [(''name'', n), (''version'', v), (''license'', l), (''reason'', VStr r)]]\<rparr>)"
      unfolding verdict_run_def by blast
    then show ?thesis
    proof cases
      case throw
      with run show ?thesis by simp
    next
      case null
      with run tr show ?thesis by simp
    next
      case verdict
      from scan_step_verdict[of fn p pkgJson w n v l r fname filters results, OF verdict]
        verdict run
      show ?thesis by auto
    qed
  qed
  have d: "case scan_filters pure_filters p j acc of
             Inl e \<Rightarrow> fst (scan_filters_h filters p pkgJson results w) = Inl e
           | Inr out \<Rightarrow>
               (\<exists>refs vs. out = acc @ vs \<and>
                  fst (scan_filters_h filters p pkgJson results w) = Inr (results @ refs) \<and>
                  list_all2 (\<lambda>ref r.
                      rep (objects (snd (scan_filters_h filters p pkgJson results w))) ref
                        (js_of_result r)) refs vs)"
    if "rep (objects w) pkgJson j" and "nc_keywords w = NC_KEYWORDS"
      and "non_commercial_spdx w = NON_COMMERCIAL_SPDX"
      and "list_all2 (\<lambda>hf f. fst hf = fst f \<and>
             ((snd hf = default_filter_h \<and> snd f = default_filter) \<or>
              (snd hf = spdx_filter_h \<and> snd f = spdx_filter))) filters pure_filters"
    using that by (rule scan_filters_h_refines)
  from a b have ab: "take (length (objects w)) (objects (snd (fn p pkgJson w))) = objects w
       \<and> nc_keywords (snd (fn p pkgJson w)) = nc_keywords w
       \<and> non_commercial_spdx (snd (fn p pkgJson w)) = non_commercial_spdx w
       \<and> take (length (objects w)) (objects (snd (scan_filters_h filters p pkgJson results w))) =
           objects w
       \<and> nc_keywords (snd (scan_filters_h filters p pkgJson results w)) = nc_keywords w
       \<and> non_commercial_spdx (snd (scan_filters_h filters p pkgJson results w)) =
           non_commercial_spdx w"
    by blast
  show ?thesis
    apply (intro conjI)
    using ab apply blast
    using ab apply blast
    using ab apply blast
    using ab apply blast
    using ab apply blast
    using ab apply blast
    using c apply blast
    using d apply blast
    done
qed

theorem manifest_untouched_witness:
  "take (length (objects
       \<lparr>objects = [OObj [(''name'', VStr ''cc''), (''version'', VStr ''1.2.3''), (''license'', VStr ''CC-BY-NC-SA-4.0'')]],
      nc_keywords = NC_KEYWORDS, non_commercial_spdx = NON_COMMERCIAL_SPDX\<rparr>))
     (objects (snd (scan_filters_h
       [(''default-filter'', default_filter_h), (''spdx-filter'', spdx_filter_h)]
       ''node_modules/cc'' (VRef 0) []
       \<lparr>objects = [OObj [(''name'', VStr ''cc''), (''version'', VStr ''1.2.3''), (''license'', VStr ''CC-BY-NC-SA-4.0'')]],
      nc_keywords = NC_KEYWORDS, non_commercial_spdx = NON_COMMERCIAL_SPDX\<rparr>))) =
     objects
       \<lparr>objects = [OObj [(''name'', VStr ''cc''), (''version'', VStr ''1.2.3''), (''license'', VStr ''CC-BY-NC-SA-4.0'')]],
      nc_keywords = NC_KEYWORDS, non_commercial_spdx = NON_COMMERCIAL_SPDX\<rparr>
   \<and> scan_filters_h
       [(''default-filter'', default_filter_h), (''spdx-filter'', spdx_filter_h)]
       ''node_modules/cc'' (VRef 0) []
       \<lparr>objects = [OObj [(''name'', VStr ''cc''), (''version'', VStr ''1.2.3''), (''license'', VStr ''CC-BY-NC-SA-4.0'')]],
      nc_keywords = NC_KEYWORDS, non_commercial_spdx = NON_COMMERCIAL_SPDX\<rparr> =
     (Inr [VRef 1, VRef 2],
      \<lparr>objects = [OObj [(''name'', VStr ''cc''), (''version'', VStr ''1.2.3''), (''license'', VStr ''CC-BY-NC-SA-4.0'')],
        OObj [(''name'', VStr ''cc''), (''version'', VStr ''1.2.3''), (''license'', VStr ''CC-BY-NC-SA-4.0''), (''reason'', VStr ''license field contains NC keyword (filter: default-filter)'')],
        OObj [(''name'', VStr ''cc''), (''version'', VStr ''1.2.3''), (''license'', VStr ''CC-BY-NC-SA-4.0''), (''reason'', VStr ''SPDX identifier is known to be non-commercial (filter: spdx-filter)'')]],
      nc_keywords = NC_KEYWORDS, non_commercial_spdx = NON_COMMERCIAL_SPDX\<rparr>)
   \<and> scan_filters [(''default-filter'', default_filter), (''spdx-filter'', spdx_filter)]
       ''node_modules/cc''
       (JObj [(''name'', JStr ''cc''), (''version'', JStr ''1.2.3''), (''license'', JStr ''CC-BY-NC-SA-4.0'')]) [] =
     Inr [\<lparr>name = JStr ''cc'', version = JStr ''1.2.3'', license = JStr ''CC-BY-NC-SA-4.0'',
          reason = ''license field contains NC keyword (filter: default-filter)''\<rparr>,
          \<lparr>name = JStr ''cc'', version = JStr ''1.2.3'', license = JStr ''CC-BY-NC-SA-4.0'',
          reason = ''SPDX identifier is known to be non-commercial (filter: spdx-filter)''\<rparr>]
   \<and> list_all2 (\<lambda>ref r. rep (objects (snd (scan_filters_h
       [(''default-filter'', default_filter_h), (''spdx-filter'', spdx_filter_h)]
       ''node_modules/cc'' (VRef 0) []
       \<lparr>objects = [OObj [(''name'', VStr ''cc''), (''version'', VStr ''1.2.3''), (''license'', VStr ''CC-BY-NC-SA-4.0'')]],
      nc_keywords = NC_KEYWORDS, non_commercial_spdx = NON_COMMERCIAL_SPDX\<rparr>))) ref (js_of_result r))
       [VRef 1, VRef 2]
       [\<lparr>name = JStr ''cc'', version = JStr ''1.2.3'', license = JStr ''CC-BY-NC-SA-4.0'',
          reason = ''license field contains NC keyword (filter: default-filter)''\<rparr>,
        \<lparr>name = JStr ''cc'', version = JStr ''1.2.3'', license = JStr ''CC-BY-NC-SA-4.0'',
          reason = ''SPDX identifier is known to be non-commercial (filter: spdx-filter)''\<rparr>]"
proof -
  let ?w0 = "\<lparr>objects = [OObj [(''name'', VStr ''cc''), (''version'', VStr ''1.2.3''), (''license'', VStr ''CC-BY-NC-SA-4.0'')]],
      nc_keywords = NC_KEYWORDS, non_commercial_spdx = NON_COMMERCIAL_SPDX\<rparr>"
  let ?F = "[(''default-filter'', default_filter_h), (''spdx-filter'', spdx_filter_h)]"
  let ?P = "[(''default-filter'', default_filter), (''spdx-filter'', spdx_filter)]"
  let ?j = "JObj [(''name'', JStr ''cc''), (''version'', JStr ''1.2.3''), (''license'', JStr ''CC-BY-NC-SA-4.0'')]"
  have h1: "default_filter_h = default_filter_h \<or> default_filter_h = spdx_filter_h" by simp
  have h2: "\<forall>(fname, f) \<in> set ?F. f = default_filter_h \<or> f = spdx_filter_h" by simp
  have m: "rep (objects ?w0) (VRef 0) ?j" by simp
  have k1: "nc_keywords ?w0 = NC_KEYWORDS" by simp
  have k2: "non_commercial_spdx ?w0 = NON_COMMERCIAL_SPDX" by simp
  have pr: "list_all2 (\<lambda>hf f. fst hf = fst f \<and>
             ((snd hf = default_filter_h \<and> snd f = default_filter) \<or>
              (snd hf = spdx_filter_h \<and> snd f = spdx_filter))) ?F ?P"
    by simp
  have pe: "scan_filters ?P ''node_modules/cc'' ?j [] =
     Inr [\<lparr>name = JStr ''cc'', version = JStr ''1.2.3'', license = JStr ''CC-BY-NC-SA-4.0'',
          reason = ''license field contains NC keyword (filter: default-filter)''\<rparr>,
          \<lparr>name = JStr ''cc'', version = JStr ''1.2.3'', license = JStr ''CC-BY-NC-SA-4.0'',
          reason = ''SPDX identifier is known to be non-commercial (filter: spdx-filter)''\<rparr>]"
    by (simp add: filter_eval)
  note all = manifest_untouched_only_reason_annotated[OF h1 h2,
      where w = ?w0 and p = "''node_modules/cc''" and pkgJson = "VRef 0" and results = "[]"
        and fname = "''default-filter''" and j = ?j and pure_filters = ?P and acc = "[]"]
  note t = all[THEN conjunct2, THEN conjunct2, THEN conjunct2, THEN conjunct1]
  note d = all[THEN conjunct2, THEN conjunct2, THEN conjunct2, THEN conjunct2, THEN conjunct2,
      THEN conjunct2, THEN conjunct2, rule_format, OF m k1 k2 pr, unfolded pe]
  have ev: "scan_filters_h ?F ''node_modules/cc'' (VRef 0) [] ?w0 =
     (Inr [VRef 1, VRef 2],
      \<lparr>objects = [OObj [(''name'', VStr ''cc''), (''version'', VStr ''1.2.3''), (''license'', VStr ''CC-BY-NC-SA-4.0'')],
        OObj [(''name'', VStr ''cc''), (''version'', VStr ''1.2.3''), (''license'', VStr ''CC-BY-NC-SA-4.0''), (''reason'', VStr ''license field contains NC keyword (filter: default-filter)'')],
        OObj [(''name'', VStr ''cc''), (''version'', VStr ''1.2.3''), (''license'', VStr ''CC-BY-NC-SA-4.0''), (''reason'', VStr ''SPDX identifier is known to be non-commercial (filter: spdx-filter)'')]],
      nc_keywords = NC_KEYWORDS, non_commercial_spdx = NON_COMMERCIAL_SPDX\<rparr>)"
    by (simp add: default_filter_h_def spdx_filter_h_def make_result_h_def bindS_def returnS_def throwS_def val_or_def
      read_NC_KEYWORDS_def read_NON_COMMERCIAL_SPDX_def new_object_def field_v_def
      NC_KEYWORDS_def NON_COMMERCIAL_SPDX_def case_eval)
  from d obtain refs where
    rf: "fst (scan_filters_h ?F ''node_modules/cc'' (VRef 0) [] ?w0) = Inr refs"
    and al: "list_all2 (\<lambda>ref r. rep (objects (snd (scan_filters_h ?F ''node_modules/cc'' (VRef 0) [] ?w0))) ref (js_of_result r))
       refs
       [\<lparr>name = JStr ''cc'', version = JStr ''1.2.3'', license = JStr ''CC-BY-NC-SA-4.0'',
          reason = ''license field contains NC keyword (filter: default-filter)''\<rparr>,
        \<lparr>name = JStr ''cc'', version = JStr ''1.2.3'', license = JStr ''CC-BY-NC-SA-4.0'',
          reason = ''SPDX identifier is known to be non-commercial (filter: spdx-filter)''\<rparr>]"
    by auto
  from rf have "refs = [VRef 1, VRef 2]" unfolding ev by simp
  with al have fin: "list_all2 (\<lambda>ref r. rep (objects (snd (scan_filters_h ?F ''node_modules/cc'' (VRef 0) [] ?w0))) ref (js_of_result r))
       [VRef 1, VRef 2]
       [\<lparr>name = JStr ''cc'', version = JStr ''1.2.3'', license = JStr ''CC-BY-NC-SA-4.0'',
          reason = ''license field contains NC keyword (filter: default-filter)''\<rparr>,
        \<lparr>name = JStr ''cc'', version = JStr ''1.2.3'', license = JStr ''CC-BY-NC-SA-4.0'',
          reason = ''SPDX identifier is known to be non-commercial (filter: spdx-filter)''\<rparr>]"
    by simp
  show ?thesis using t ev pe fin by blast
qed

end
